theory Spec2Isabelle
  imports Complex_Main
begin

section \<open>The endpoint pool manager and its circuit-breaker policies\<close>

text \<open>
  A shallow embedding of the pool manager module: the \<open>RingBuffer\<close>, the \<open>Endpoint\<close>
  objects, the \<open>PoolManager\<close> with its four hooks, and the two eject-on-error
  configurations. Objects that the JavaScript shares by reference (endpoints are held by
  the manager, by the timer closures and by the callers) live in an explicit heap; the
  timers of the JavaScript runtime and its clock are part of the model's \<open>runtime\<close>.
\<close>

subsection \<open>Endpoint states\<close>

datatype state = CLOSED | HALF_OPEN_READY | HALF_OPEN_PENDING | OPEN

subsection \<open>RingBuffer\<close>

text \<open>
  \<open>this.offset\<close> is a JavaScript number: \<open>(offset + 1) % size\<close> is \<open>NaN\<close> when
  \<open>size\<close> is 0, and \<open>NaN + 1\<close> and \<open>NaN % size\<close> are \<open>NaN\<close> again.
\<close>

datatype index = Idx nat | NaN

text \<open>
  \<open>rb_buffer\<close> is the array \<open>this.buffer\<close>: \<open>None\<close> is a hole, which reads as
  \<open>undefined\<close>. \<open>rb_buffer_NaN\<close> is the property \<open>"NaN"\<close> of the array object, which
  is what \<open>this.buffer[NaN]\<close> reads and writes. The values stored by the two policies are
  integers (millisecond timestamps, the flags 0 and 1).
\<close>

record RingBuffer =
  rb_buffer :: "int option list"
  rb_buffer_NaN :: "int option"
  rb_offset :: index
  rb_size :: nat

definition new_RingBuffer :: "nat \<Rightarrow> RingBuffer" where
  "new_RingBuffer sz =
     \<lparr>rb_buffer = replicate sz None, rb_buffer_NaN = None, rb_offset = Idx 0, rb_size = sz\<rparr>"

text \<open>Reading an array beyond its length gives \<open>undefined\<close>.\<close>

definition array_get :: "int option list \<Rightarrow> nat \<Rightarrow> int option" where
  "array_get xs i = (if i < length xs then xs ! i else None)"

text \<open>Writing an array beyond its length extends it, leaving holes in between.\<close>

definition array_set :: "int option list \<Rightarrow> nat \<Rightarrow> int \<Rightarrow> int option list" where
  "array_set xs i v =
     (if i < length xs then xs[i := Some v]
      else xs @ replicate (i - length xs) None @ [Some v])"

definition js_mod :: "nat \<Rightarrow> nat \<Rightarrow> index" where
  "js_mod a b = (if b = 0 then NaN else Idx (a mod b))"

definition read :: "RingBuffer \<Rightarrow> int option" where
  "read rb =
     (case rb_offset rb of
        Idx i \<Rightarrow> array_get (rb_buffer rb) i
      | NaN \<Rightarrow> rb_buffer_NaN rb)"

definition write_rb :: "RingBuffer \<Rightarrow> int \<Rightarrow> RingBuffer" where
  "write_rb rb val =
     (case rb_offset rb of
        Idx i \<Rightarrow> rb\<lparr>rb_buffer := array_set (rb_buffer rb) i val,
                    rb_offset := js_mod (i + 1) (rb_size rb)\<rparr>
      | NaN \<Rightarrow> rb\<lparr>rb_buffer_NaN := Some val\<rparr>)"

text \<open>Writing a list of values one after the other, first value first.\<close>

definition write_all :: "RingBuffer \<Rightarrow> int list \<Rightarrow> RingBuffer" where
  "write_all rb vs = fold (\<lambda>v b. write_rb b v) vs rb"

text \<open>
  A buffer as the constructor and \<open>write\<close> leave it when the capacity is positive:
  the array has \<open>size\<close> slots and the write pointer is inside it.
\<close>

definition rb_wf :: "RingBuffer \<Rightarrow> bool" where
  "rb_wf rb =
     (0 < rb_size rb \<and> length (rb_buffer rb) = rb_size rb \<and>
      (case rb_offset rb of Idx i \<Rightarrow> i < rb_size rb | NaN \<Rightarrow> False))"

text \<open>The slots in the order in which \<open>write\<close> will overwrite them.\<close>

definition rb_window :: "RingBuffer \<Rightarrow> int option list" where
  "rb_window rb =
     (case rb_offset rb of
        Idx i \<Rightarrow> drop i (rb_buffer rb) @ take i (rb_buffer rb)
      | NaN \<Rightarrow> [])"

subsection \<open>Endpoints\<close>

text \<open>The descriptor \<open>info\<close> handed to \<open>updateEndpoints\<close>: a host name and a port number.\<close>

record info =
  name :: string
  port :: nat

text \<open>
  An \<open>Endpoint\<close> object. The constructor sets \<open>name\<close>, \<open>port\<close> and \<open>url\<close>; every
  other property is \<open>undefined\<close> (\<open>None\<close>) until a hook of the manager sets it.
  \<open>callback\<close> tells whether \<open>endpoint.callback\<close> has been bound to the manager's
  \<open>onEndpointReturned\<close>; \<open>errors\<close> is a number once set, and \<open>None\<close> also stands for
  the \<open>NaN\<close> that arithmetic on \<open>undefined\<close> gives; \<open>reopenTimeout\<close> is the handle
  stored in \<open>endpoint._reopenTimeout\<close>.
\<close>

record Endpoint = info +
  url :: string
  callback :: bool
  state :: "state option"
  buffer :: "RingBuffer option"
  errors :: "int option"
  reopenTimeout :: "nat option"

text \<open>The decimal digits of a number, as string concatenation renders it.\<close>

function string_of_nat :: "nat \<Rightarrow> string" where
  "string_of_nat n =
     (if n < 10 then [''0123456789'' ! n]
      else string_of_nat (n div 10) @ [''0123456789'' ! (n mod 10)])"
  by pat_completeness auto
termination
  by (relation "measure id") auto

declare string_of_nat.simps [simp del]

definition new_Endpoint :: "info \<Rightarrow> Endpoint" where
  "new_Endpoint i =
     \<lparr>name = name i, port = port i,
      url = name i @ '':'' @ string_of_nat (port i),
      callback = False, state = None, buffer = None, errors = None, reopenTimeout = None\<rparr>"

subsection \<open>The runtime: heap, timers and clock\<close>

text \<open>
  A scheduled timer. The only function this module passes to \<open>setTimeout\<close> is
  \<open>function () { endpoint.state = HALF_OPEN_READY; }\<close>, so a timer is described by its
  handle, the time from which it may fire, and the endpoint its closure holds.
\<close>

record timer =
  timer_id :: nat
  due :: int
  target :: nat

text \<open>
  Endpoint objects are referred to by their index in \<open>heap\<close>; objects are never freed.
  \<open>timers\<close> are the timers scheduled and neither fired nor cleared; \<open>now\<close> is what
  \<open>Date.now()\<close> returns.
\<close>

record runtime =
  heap :: "Endpoint list"
  timers :: "timer list"
  next_timer_id :: nat
  now :: int

definition modify :: "runtime \<Rightarrow> nat \<Rightarrow> (Endpoint \<Rightarrow> Endpoint) \<Rightarrow> runtime" where
  "modify rt endpoint f = rt\<lparr>heap := (heap rt)[endpoint := f (heap rt ! endpoint)]\<rparr>"

definition setTimeout :: "runtime \<Rightarrow> nat \<Rightarrow> nat \<Rightarrow> nat \<times> runtime" where
  "setTimeout rt endpoint delay =
     (next_timer_id rt,
      rt\<lparr>timers := timers rt @
            [\<lparr>timer_id = next_timer_id rt, due = now rt + int delay, target = endpoint\<rparr>],
         next_timer_id := Suc (next_timer_id rt)\<rparr>)"

text \<open>Clearing \<open>undefined\<close>, or a handle whose timer has fired, does nothing.\<close>

definition clearInterval :: "runtime \<Rightarrow> nat option \<Rightarrow> runtime" where
  "clearInterval rt h =
     (case h of
        None \<Rightarrow> rt
      | Some i \<Rightarrow> rt\<lparr>timers := filter (\<lambda>t. timer_id t \<noteq> i) (timers rt)\<rparr>)"

text \<open>
  The runtime runs the timer with handle \<open>i\<close>, if it is scheduled and due: the timer
  is spent and its closure sets the state of its endpoint.
\<close>

definition timer_fires :: "runtime \<Rightarrow> nat \<Rightarrow> runtime" where
  "timer_fires rt i =
     (case find (\<lambda>t. timer_id t = i) (timers rt) of
        None \<Rightarrow> rt
      | Some t \<Rightarrow>
          if due t \<le> now rt then
            modify (rt\<lparr>timers := filter (\<lambda>t. timer_id t \<noteq> i) (timers rt)\<rparr>) (target t)
              (\<lambda>e. e\<lparr>state := Some HALF_OPEN_READY\<rparr>)
          else rt)"

subsection \<open>JavaScript numbers\<close>

text \<open>
  A JavaScript number is an IEEE 754 double: a finite double, represented by the rational
  number it denotes, an infinity or \<open>NaN\<close>. The result of an arithmetic operation on
  finite doubles is the exact result rounded to the nearest double, to the one with the
  even significand when two are equally near, and an infinity when the rounded result is
  beyond the largest double.
\<close>

datatype number = Finite rat | PlusInfinity | MinusInfinity | NotANumber

text \<open>The number of binary digits of a natural number.\<close>

function bit_length :: "nat \<Rightarrow> nat" where
  "bit_length n = (if n = 0 then 0 else Suc (bit_length (n div 2)))"
  by pat_completeness auto
termination by (relation "measure id") auto

declare bit_length.simps [simp del]

definition pow2 :: "int \<Rightarrow> rat" where
  "pow2 e = (if 0 \<le> e then 2 ^ nat e else 1 / 2 ^ nat (- e))"

text \<open>
  For \<open>x > 0\<close>, the exponent \<open>e\<close> with \<open>pow2 e \<le> x < pow2 (e + 1)\<close>: one less than the
  number of binary digits of the integer part of \<open>x\<close> when \<open>x \<ge> 1\<close>, and otherwise the
  negated number of binary digits of \<open>\<lceil>1 / x\<rceil> - 1\<close>.
\<close>

definition ilog2 :: "rat \<Rightarrow> int" where
  "ilog2 x =
     (if 1 \<le> x then int (bit_length (nat \<lfloor>x\<rfloor>)) - 1
      else - int (bit_length (nat (\<lceil>1 / x\<rceil> - 1))))"

text \<open>The nearest integer, the even one of the two when \<open>x\<close> is half way between them.\<close>

definition round_half_even :: "rat \<Rightarrow> int" where
  "round_half_even x =
     (let f = \<lfloor>x\<rfloor>; d = x - of_int f
      in if d < 1 / 2 then f
         else if 1 / 2 < d then f + 1
         else if even f then f else f + 1)"

text \<open>
  Rounding to a double. The significand of a double has 53 binary digits, so the doubles
  near \<open>x\<close> are the multiples of \<open>pow2 e\<close> with \<open>e = ilog2 \<bar>x\<bar> - 52\<close>; the least
  exponent is \<open>-1074\<close>, where the doubles are the denormal ones, and a rounded value of
  magnitude \<open>pow2 1024\<close> is beyond the range.
\<close>

definition round_double :: "rat \<Rightarrow> number" where
  "round_double x =
     (if x = 0 then Finite 0
      else
        let e = max (ilog2 \<bar>x\<bar> - 52) (- 1074);
            y = of_int (round_half_even (x / pow2 e)) * pow2 e
        in if pow2 1024 \<le> y then PlusInfinity
           else if y \<le> - pow2 1024 then MinusInfinity
           else Finite y)"

text \<open>The operator \<open>*\<close> on numbers.\<close>

fun times_number :: "number \<Rightarrow> number \<Rightarrow> number" where
  "times_number (Finite x) (Finite y) = round_double (x * y)"
| "times_number NotANumber y = NotANumber"
| "times_number x NotANumber = NotANumber"
| "times_number (Finite x) PlusInfinity =
     (if x = 0 then NotANumber else if 0 < x then PlusInfinity else MinusInfinity)"
| "times_number (Finite x) MinusInfinity =
     (if x = 0 then NotANumber else if 0 < x then MinusInfinity else PlusInfinity)"
| "times_number PlusInfinity (Finite y) =
     (if y = 0 then NotANumber else if 0 < y then PlusInfinity else MinusInfinity)"
| "times_number MinusInfinity (Finite y) =
     (if y = 0 then NotANumber else if 0 < y then MinusInfinity else PlusInfinity)"
| "times_number PlusInfinity PlusInfinity = PlusInfinity"
| "times_number PlusInfinity MinusInfinity = MinusInfinity"
| "times_number MinusInfinity PlusInfinity = MinusInfinity"
| "times_number MinusInfinity MinusInfinity = PlusInfinity"

text \<open>
  The operator \<open>*\<close> on two numbers given by their values. The value of a number is the
  double itself; a value that is not a double stands for the double nearest to it, which
  is the number that a literal of this value denotes.
\<close>

definition js_times :: "rat \<Rightarrow> rat \<Rightarrow> number" where
  "js_times x y = times_number (round_double x) (round_double y)"

subsection \<open>The eject-on-error hooks\<close>

text \<open>Truthiness of an optional number: \<open>undefined\<close> and 0 are falsy.\<close>

definition truthy :: "'a::zero option \<Rightarrow> bool" where
  "truthy x = (case x of None \<Rightarrow> False | Some v \<Rightarrow> v \<noteq> 0)"

datatype error = TypeError | Error string

definition disableEndpoint :: "nat \<Rightarrow> runtime \<Rightarrow> nat \<Rightarrow> runtime" where
  "disableEndpoint resetTimeout rt endpoint =
     (if state (heap rt ! endpoint) = Some OPEN then rt
      else
        let rt1 = modify rt endpoint (\<lambda>e. e\<lparr>state := Some OPEN\<rparr>);
            rt2 = clearInterval rt1 (reopenTimeout (heap rt1 ! endpoint));
            (h, rt3) = setTimeout rt2 endpoint resetTimeout
        in modify rt3 endpoint (\<lambda>e. e\<lparr>reopenTimeout := Some h\<rparr>))"

text \<open>
  The hooks of a manager. Each receives the endpoint by reference and may change the
  runtime; \<open>onEndpointReturned\<close> throws a \<open>TypeError\<close> when it reads a property of an
  \<open>undefined\<close> buffer.
\<close>

record options =
  isInPool :: "runtime \<Rightarrow> nat \<Rightarrow> bool \<times> runtime"
  onEndpointReturned :: "runtime \<Rightarrow> nat \<Rightarrow> bool \<Rightarrow> error + runtime"
  onEndpointRegistered :: "runtime \<Rightarrow> nat \<Rightarrow> runtime"
  onEndpointSelected :: "runtime \<Rightarrow> nat \<Rightarrow> runtime"

definition ejectIsInPool :: "runtime \<Rightarrow> nat \<Rightarrow> bool \<times> runtime" where
  "ejectIsInPool rt endpoint =
     (state (heap rt ! endpoint) = Some CLOSED \<or>
      state (heap rt ! endpoint) = Some HALF_OPEN_READY, rt)"

definition ejectOnEndpointSelected :: "runtime \<Rightarrow> nat \<Rightarrow> runtime" where
  "ejectOnEndpointSelected rt endpoint =
     (if state (heap rt ! endpoint) = Some HALF_OPEN_READY
      then modify rt endpoint (\<lambda>e. e\<lparr>state := Some HALF_OPEN_PENDING\<rparr>)
      else rt)"

definition rollingOnEndpointRegistered :: "nat \<Rightarrow> runtime \<Rightarrow> nat \<Rightarrow> runtime" where
  "rollingOnEndpointRegistered maxFailures rt endpoint =
     modify rt endpoint
       (\<lambda>e. e\<lparr>state := Some CLOSED, buffer := Some (new_RingBuffer (maxFailures - 1))\<rparr>)"

definition rollingOnEndpointReturned ::
  "int \<Rightarrow> nat \<Rightarrow> runtime \<Rightarrow> nat \<Rightarrow> bool \<Rightarrow> error + runtime" where
  "rollingOnEndpointReturned failureWindow resetTimeout rt endpoint err =
     (if err then
        if state (heap rt ! endpoint) = Some OPEN then Inr rt
        else
          case buffer (heap rt ! endpoint) of
            None \<Rightarrow> Inl TypeError
          | Some b \<Rightarrow>
              if rb_size b = 0 then Inr (disableEndpoint resetTimeout rt endpoint)
              else
                let now' = now rt;
                    oldestErrorTime = read b;
                    rt1 = modify rt endpoint (\<lambda>e. e\<lparr>buffer := Some (write_rb b now')\<rparr>)
                in if state (heap rt1 ! endpoint) = Some HALF_OPEN_PENDING \<or>
                      (case oldestErrorTime of
                         None \<Rightarrow> False
                       | Some t \<Rightarrow> now' - t \<le> failureWindow)
                   then Inr (disableEndpoint resetTimeout rt1 endpoint)
                   else Inr rt1
      else if state (heap rt ! endpoint) = Some HALF_OPEN_PENDING
        then Inr (modify rt endpoint (\<lambda>e. e\<lparr>state := Some CLOSED\<rparr>))
        else Inr rt)"

definition getRollingWindowConfiguration :: "int \<Rightarrow> nat \<Rightarrow> nat \<Rightarrow> options" where
  "getRollingWindowConfiguration failureWindow maxFailures resetTimeout =
     \<lparr>isInPool = ejectIsInPool,
      onEndpointReturned = rollingOnEndpointReturned failureWindow resetTimeout,
      onEndpointRegistered = rollingOnEndpointRegistered maxFailures,
      onEndpointSelected = ejectOnEndpointSelected\<rparr>"

definition rateOnEndpointRegistered :: "nat \<Rightarrow> runtime \<Rightarrow> nat \<Rightarrow> runtime" where
  "rateOnEndpointRegistered failureRateWindow rt endpoint =
     modify rt endpoint
       (\<lambda>e. e\<lparr>state := Some CLOSED, buffer := Some (new_RingBuffer failureRateWindow),
              errors := Some 0\<rparr>)"

text \<open>
  \<open>endpoint.errors >= maxErrorCount\<close>: a comparison with \<open>undefined\<close> or \<open>NaN\<close> is false;
  \<open>errors\<close> is an integer, which is compared with the threshold as it is.
\<close>

definition errors_ge :: "int option \<Rightarrow> number \<Rightarrow> bool" where
  "errors_ge x m =
     (case x of
        None \<Rightarrow> False
      | Some n \<Rightarrow>
          (case m of
             Finite q \<Rightarrow> q \<le> of_int n
           | PlusInfinity \<Rightarrow> False
           | MinusInfinity \<Rightarrow> True
           | NotANumber \<Rightarrow> False))"

definition rateOnEndpointReturned ::
  "number \<Rightarrow> nat \<Rightarrow> runtime \<Rightarrow> nat \<Rightarrow> bool \<Rightarrow> error + runtime" where
  "rateOnEndpointReturned maxErrorCount resetTimeout rt endpoint err =
     (case buffer (heap rt ! endpoint) of
        None \<Rightarrow> Inl TypeError
      | Some b \<Rightarrow>
          let state' = state (heap rt ! endpoint);
              newStatus = (if err then 1 else 0);
              oldestStatus = (if truthy (read b) then 1 else 0);
              rt1 = modify rt endpoint (\<lambda>e. e\<lparr>buffer := Some (write_rb b newStatus)\<rparr>);
              rt2 = modify rt1 endpoint
                (\<lambda>e. e\<lparr>errors := map_option (\<lambda>n. n + (newStatus - oldestStatus)) (errors e)\<rparr>)
          in if err \<and> (state' = Some HALF_OPEN_PENDING \<or>
                        errors_ge (errors (heap rt2 ! endpoint)) maxErrorCount)
             then Inr (disableEndpoint resetTimeout rt2 endpoint)
             else if \<not> err \<and> state' = Some HALF_OPEN_PENDING
               then Inr (modify rt2 endpoint (\<lambda>e. e\<lparr>state := Some CLOSED\<rparr>))
               else Inr rt2)"

text \<open>
  \<open>failureRate\<close> and \<open>failureRateWindow\<close> are numbers, given by their values; the
  threshold is their product as \<open>*\<close> computes it.
\<close>

definition getRateConfiguration :: "rat \<Rightarrow> nat \<Rightarrow> nat \<Rightarrow> options" where
  "getRateConfiguration failureRate failureRateWindow resetTimeout =
     (let maxErrorCount = js_times failureRate (of_nat failureRateWindow) in
      \<lparr>isInPool = ejectIsInPool,
       onEndpointReturned = rateOnEndpointReturned maxErrorCount resetTimeout,
       onEndpointRegistered = rateOnEndpointRegistered failureRateWindow,
       onEndpointSelected = ejectOnEndpointSelected\<rparr>)"

subsection \<open>PoolManager\<close>

text \<open>The defaults of the constructor: \<open>_.constant(true)\<close> and \<open>_.noop\<close>.\<close>

definition defaultOptions :: options where
  "defaultOptions =
     \<lparr>isInPool = (\<lambda>rt endpoint. (True, rt)),
      onEndpointReturned = (\<lambda>rt endpoint err. Inr rt),
      onEndpointRegistered = (\<lambda>rt endpoint. rt),
      onEndpointSelected = (\<lambda>rt endpoint. rt)\<rparr>"

record PoolManager = options +
  endpoints :: "nat list"
  endpointOffset :: nat

definition new_PoolManager :: "options \<Rightarrow> PoolManager" where
  "new_PoolManager opts =
     \<lparr>isInPool = isInPool opts, onEndpointReturned = onEndpointReturned opts,
      onEndpointRegistered = onEndpointRegistered opts,
      onEndpointSelected = onEndpointSelected opts,
      endpoints = [], endpointOffset = 0\<rparr>"

definition defaultPoolManager :: PoolManager where
  "defaultPoolManager = new_PoolManager defaultOptions"

text \<open>The options object of \<open>ejectOnErrorPoolManager\<close>.\<close>

record eject_options =
  failureWindow :: "int option"
  maxFailures :: "nat option"
  resetTimeout :: "nat option"
  failureRate :: "rat option"
  failureRateWindow :: "nat option"

definition ejectOnErrorPoolManager :: "eject_options option \<Rightarrow> error + PoolManager" where
  "ejectOnErrorPoolManager opts =
     (case opts of
        None \<Rightarrow> Inl (Error ''Must supply arguments to ejectOnErrorPoolManager'')
      | Some opt \<Rightarrow>
          if truthy (failureWindow opt) \<and> truthy (maxFailures opt) \<and>
             truthy (resetTimeout opt)
          then Inr (new_PoolManager (getRollingWindowConfiguration
                 (the (failureWindow opt)) (the (maxFailures opt)) (the (resetTimeout opt))))
          else if truthy (failureRate opt) \<and> truthy (failureRateWindow opt) \<and>
                  truthy (resetTimeout opt)
          then Inr (new_PoolManager (getRateConfiguration
                 (the (failureRate opt)) (the (failureRateWindow opt))
                 (the (resetTimeout opt))))
          else Inl (Error ''Must supply either configuration to ejectOnErrorPoolManager''))"

definition hasEndpoints :: "PoolManager \<Rightarrow> bool" where
  "hasEndpoints pm = (length (endpoints pm) > 0)"

text \<open>
  The loop of \<open>getNextEndpoint\<close>, from iteration \<open>i\<close> on; \<open>l\<close> is the length of the
  collection. Falling out of the loop returns \<open>undefined\<close> (\<open>None\<close>).
\<close>

function getNextEndpoint_loop ::
  "PoolManager \<Rightarrow> runtime \<Rightarrow> nat \<Rightarrow> nat \<Rightarrow> nat option \<times> PoolManager \<times> runtime" where
  "getNextEndpoint_loop pm rt i l =
     (if i < l then
        let offset = (endpointOffset pm + i) mod l;
            endpoint = endpoints pm ! offset;
            r = isInPool pm rt endpoint
        in if fst r then
             (Some endpoint, pm\<lparr>endpointOffset := offset + 1\<rparr>,
              onEndpointSelected pm (snd r) endpoint)
           else getNextEndpoint_loop pm (snd r) (i + 1) l
      else (None, pm, rt))"
  by pat_completeness auto
termination
  by (relation "measure (\<lambda>(pm, rt, i, l). l - i)") auto

declare getNextEndpoint_loop.simps [simp del]

definition getNextEndpoint ::
  "PoolManager \<Rightarrow> runtime \<Rightarrow> nat option \<times> PoolManager \<times> runtime" where
  "getNextEndpoint pm rt = getNextEndpoint_loop pm rt 0 (length (endpoints pm))"

text \<open>
  \<open>_.findWhere(newEndpoints, {url: u})\<close> is the first candidate with that url;
  \<open>_.without(newEndpoints, e)\<close> drops every element identical to the object \<open>e\<close>;
  \<open>splice(i, 1)\<close> removes the element at index \<open>i\<close>.
\<close>

definition findWhere :: "Endpoint list \<Rightarrow> nat list \<Rightarrow> string \<Rightarrow> nat option" where
  "findWhere h xs u = find (\<lambda>a. url (h ! a) = u) xs"

definition without :: "nat list \<Rightarrow> nat \<Rightarrow> nat list" where
  "without xs a = filter (\<lambda>x. x \<noteq> a) xs"

definition splice_1 :: "nat list \<Rightarrow> nat \<Rightarrow> nat list" where
  "splice_1 xs i = take i xs @ drop (Suc i) xs"

text \<open>
  The reverse walk \<open>for (i = this.endpoints.length; i--;)\<close>: the first argument after
  the heap counts the iterations left, and the body runs at index \<open>i\<close>.
\<close>

fun updateEndpoints_loop ::
  "Endpoint list \<Rightarrow> nat \<Rightarrow> nat list \<Rightarrow> nat list \<Rightarrow> nat list \<times> nat list" where
  "updateEndpoints_loop h 0 es newEndpoints = (es, newEndpoints)"
| "updateEndpoints_loop h (Suc i) es newEndpoints =
     (case findWhere h newEndpoints (url (h ! (es ! i))) of
        Some matchingEndpoint \<Rightarrow>
          updateEndpoints_loop h i es (without newEndpoints matchingEndpoint)
      | None \<Rightarrow> updateEndpoints_loop h i (splice_1 es i) newEndpoints)"

text \<open>The body of the \<open>forEach\<close>: bind the callback, then run the registration hook.\<close>

definition register :: "PoolManager \<Rightarrow> runtime \<Rightarrow> nat \<Rightarrow> runtime" where
  "register pm rt endpoint =
     onEndpointRegistered pm (modify rt endpoint (\<lambda>e. e\<lparr>callback := True\<rparr>)) endpoint"

definition updateEndpoints ::
  "PoolManager \<Rightarrow> runtime \<Rightarrow> info list \<Rightarrow> PoolManager \<times> runtime" where
  "updateEndpoints pm rt infos =
     (let n = length (heap rt);
          rt1 = rt\<lparr>heap := heap rt @ map new_Endpoint infos\<rparr>;
          newEndpoints = [n ..< n + length infos];
          r = updateEndpoints_loop (heap rt1) (length (endpoints pm)) (endpoints pm)
                newEndpoints;
          rt2 = fold (\<lambda>endpoint rt. register pm rt endpoint) (snd r) rt1
      in (pm\<lparr>endpoints := fst r @ snd r\<rparr>, rt2))"

record status =
  total :: nat
  unhealthy :: nat

definition getStatus :: "PoolManager \<Rightarrow> runtime \<Rightarrow> status \<times> runtime" where
  "getStatus pm rt =
     (let r = fold (\<lambda>endpoint (badCount, rt).
                  let u = isInPool pm rt endpoint
                  in (badCount + (if fst u then 0 else 1), snd u))
                (endpoints pm) (0, rt)
      in (\<lparr>total = length (endpoints pm), unhealthy = fst r\<rparr>, snd r))"

subsection \<open>Runs of a pool\<close>

text \<open>
  What can happen to a pool, one event at a time: the refresher calls
  \<open>updateEndpoints\<close>, a caller calls \<open>getNextEndpoint\<close> or \<open>getStatus\<close>, a caller reports
  an outcome through \<open>endpoint.callback(err)\<close>, the runtime runs a timer that is due,
  time passes. An endpoint whose callback is not bound has never been handed out, so a
  \<open>Callback\<close> for it cannot happen and is skipped; an exception thrown by the callback
  comes before any assignment and leaves everything as it was.
\<close>

datatype event =
  UpdateEndpoints "info list"
| GetNextEndpoint
| GetStatus
| Callback nat bool
| TimerFires nat
| Elapse nat

fun step :: "PoolManager \<times> runtime \<Rightarrow> event \<Rightarrow> PoolManager \<times> runtime" where
  "step (pm, rt) (UpdateEndpoints infos) = updateEndpoints pm rt infos"
| "step (pm, rt) GetNextEndpoint = snd (getNextEndpoint pm rt)"
| "step (pm, rt) GetStatus = (pm, snd (getStatus pm rt))"
| "step (pm, rt) (Callback endpoint err) =
     (if endpoint < length (heap rt) \<and> callback (heap rt ! endpoint) then
        (case onEndpointReturned pm rt endpoint err of
           Inl e \<Rightarrow> (pm, rt)
         | Inr rt' \<Rightarrow> (pm, rt'))
      else (pm, rt))"
| "step (pm, rt) (TimerFires i) = (pm, timer_fires rt i)"
| "step (pm, rt) (Elapse d) = (pm, rt\<lparr>now := now rt + int d\<rparr>)"

definition new_runtime :: "int \<Rightarrow> runtime" where
  "new_runtime t = \<lparr>heap = [], timers = [], next_timer_id = 0, now = t\<rparr>"

definition run :: "PoolManager \<Rightarrow> int \<Rightarrow> event list \<Rightarrow> PoolManager \<times> runtime" where
  "run pm t evs = foldl step (pm, new_runtime t) evs"

subsection \<open>Policies, and the hooks as functions on endpoint objects\<close>

text \<open>
  The three ways in which the module builds a manager: \<open>defaultPoolManager\<close>, and
  \<open>ejectOnErrorPoolManager\<close> with the rolling-window or with the rate options.
\<close>

datatype policy =
  NoPolicy
| RollingWindow int nat nat
| Rate rat nat nat

fun poolConfig :: "policy \<Rightarrow> options" where
  "poolConfig NoPolicy = defaultOptions"
| "poolConfig (RollingWindow fw mf r) = getRollingWindowConfiguration fw mf r"
| "poolConfig (Rate fr frw r) = getRateConfiguration fr frw r"

text \<open>
  A manager built with policy \<open>p\<close>, with \<open>es\<close> as its collection and \<open>k\<close> as its
  rotation offset.
\<close>

definition pool_of :: "policy \<Rightarrow> nat list \<Rightarrow> nat \<Rightarrow> PoolManager" where
  "pool_of p es k = (new_PoolManager (poolConfig p))\<lparr>endpoints := es, endpointOffset := k\<rparr>"

text \<open>Whether policy \<open>p\<close> offers an endpoint object for use.\<close>

fun usable :: "policy \<Rightarrow> Endpoint \<Rightarrow> bool" where
  "usable NoPolicy e = True"
| "usable p e = (state e = Some CLOSED \<or> state e = Some HALF_OPEN_READY)"

text \<open>What being selected does to an endpoint object under policy \<open>p\<close>.\<close>

fun selected :: "policy \<Rightarrow> Endpoint \<Rightarrow> Endpoint" where
  "selected NoPolicy e = e"
| "selected p e =
     (if state e = Some HALF_OPEN_READY then e\<lparr>state := Some HALF_OPEN_PENDING\<rparr> else e)"

text \<open>What the registration hook of policy \<open>p\<close> does to an endpoint object.\<close>

fun registered :: "policy \<Rightarrow> Endpoint \<Rightarrow> Endpoint" where
  "registered NoPolicy e = e"
| "registered (RollingWindow fw mf r) e =
     e\<lparr>state := Some CLOSED, buffer := Some (new_RingBuffer (mf - 1))\<rparr>"
| "registered (Rate fr frw r) e =
     e\<lparr>state := Some CLOSED, buffer := Some (new_RingBuffer frw), errors := Some 0\<rparr>"

text \<open>
  The scan of \<open>getNextEndpoint\<close> in the words of its description: the offsets
  \<open>(endpointOffset + i) mod l\<close> for \<open>i = 0, \<dots>, l - 1\<close>, in this order, and the first
  of them whose endpoint is usable.
\<close>

definition scan_order :: "PoolManager \<Rightarrow> nat list" where
  "scan_order pm =
     map (\<lambda>i. (endpointOffset pm + i) mod length (endpoints pm))
       [0 ..< length (endpoints pm)]"

definition first_usable :: "PoolManager \<Rightarrow> runtime \<Rightarrow> nat option" where
  "first_usable pm rt =
     find (\<lambda>offset. fst (isInPool pm rt (endpoints pm ! offset))) (scan_order pm)"

text \<open>\<open>n\<close> consecutive calls of \<open>getNextEndpoint\<close>, and what they return.\<close>

fun getNextEndpoints ::
  "nat \<Rightarrow> PoolManager \<Rightarrow> runtime \<Rightarrow> nat option list \<times> PoolManager \<times> runtime" where
  "getNextEndpoints 0 pm rt = ([], pm, rt)"
| "getNextEndpoints (Suc n) pm rt =
     (let r = getNextEndpoint pm rt;
          rs = getNextEndpoints n (fst (snd r)) (snd (snd r))
      in (fst r # fst rs, snd rs))"

text \<open>Reporting a list of outcomes on one endpoint, one after the other.\<close>

definition report_all :: "PoolManager \<Rightarrow> runtime \<Rightarrow> nat \<Rightarrow> bool list \<Rightarrow> runtime" where
  "report_all pm rt endpoint errs = snd (foldl step (pm, rt) (map (Callback endpoint) errs))"

subsection \<open>Invariants of a run\<close>

text \<open>
  The scheduled timers and the endpoint objects agree: handles are not reused, and a
  scheduled timer refers to an existing endpoint that is \<open>OPEN\<close> and holds the handle of
  this timer in \<open>_reopenTimeout\<close>.
\<close>

definition timers_ok :: "runtime \<Rightarrow> bool" where
  "timers_ok rt =
     (distinct (map timer_id (timers rt)) \<and>
      list_all (\<lambda>t. timer_id t < next_timer_id rt \<and> target t < length (heap rt) \<and>
                   reopenTimeout (heap rt ! target t) = Some (timer_id t) \<and>
                   state (heap rt ! target t) = Some OPEN)
        (timers rt))"







subsection \<open>Example configurations\<close>

text \<open>
  An endpoint under the rolling-window policy with \<open>maxFailures = 2\<close> that failed at
  time 0, five milliseconds later.
\<close>

definition example_rolling_runtime :: runtime where
  "example_rolling_runtime =
     \<lparr>heap = [\<lparr>name = ''a'', port = 80, url = ''a:80'', callback = True,
               state = Some CLOSED,
               buffer = Some \<lparr>rb_buffer = [Some 0], rb_buffer_NaN = None,
                               rb_offset = Idx 0, rb_size = 1\<rparr>,
               errors = None, reopenTimeout = None\<rparr>],
      timers = [], next_timer_id = 0, now = 5\<rparr>"

text \<open>
  A pool under the rate policy with \<open>failureRate = 0.5\<close>, \<open>failureRateWindow = 4\<close> and
  \<open>resetTimeout = 10000\<close>, holding one freshly registered endpoint, and the runtime
  after a list of outcomes has been reported on that endpoint.
\<close>

definition example_rate_pool :: "PoolManager \<times> runtime" where
  "example_rate_pool =
     updateEndpoints (new_PoolManager (getRateConfiguration (1 / 2) 4 10000)) (new_runtime 0)
       [\<lparr>name = ''a'', port = 80\<rparr>]"

definition example_rate_after :: "bool list \<Rightarrow> runtime" where
  "example_rate_after errs =
     report_all (fst example_rate_pool) (snd example_rate_pool) 0 errs"

text \<open>
  A pool under the rolling-window policy with \<open>maxFailures = 2\<close> after its first
  refresh, which returned three descriptors.
\<close>

definition example_rolling_pool :: "PoolManager \<times> runtime" where
  "example_rolling_pool =
     updateEndpoints (new_PoolManager (getRollingWindowConfiguration 10000 2 10000))
       (new_runtime 0)
       [\<lparr>name = ''a'', port = 80\<rparr>, \<lparr>name = ''b'', port = 80\<rparr>, \<lparr>name = ''c'', port = 80\<rparr>]"

text \<open>A pool whose first refresh returned the same descriptor twice.\<close>

definition example_duplicate_pool :: "PoolManager \<times> runtime" where
  "example_duplicate_pool =
     updateEndpoints (new_PoolManager (getRollingWindowConfiguration 10000 2 10000))
       (new_runtime 0) [\<lparr>name = ''a'', port = 80\<rparr>, \<lparr>name = ''a'', port = 80\<rparr>]"

text \<open>
  The pool of three endpoints after two failures of its second endpoint, and then after
  a refresh that no longer lists that endpoint.
\<close>

definition example_disabled_pool :: "PoolManager \<times> runtime" where
  "example_disabled_pool =
     foldl step example_rolling_pool [Callback 1 True, Callback 1 True]"

definition example_removed_pool :: "PoolManager \<times> runtime" where
  "example_removed_pool =
     step example_disabled_pool
       (UpdateEndpoints [\<lparr>name = ''a'', port = 80\<rparr>, \<lparr>name = ''c'', port = 80\<rparr>])"

text \<open>
  The events that take a new rolling-window pool to the state in which its second
  endpoint has been disabled, has become \<open>HALF_OPEN_READY\<close> when its timer fired, and has
  been handed out by the second of two calls of \<open>getNextEndpoint\<close>.
\<close>

definition example_probe_events :: "event list" where
  "example_probe_events =
     [UpdateEndpoints
        [\<lparr>name = ''a'', port = 80\<rparr>, \<lparr>name = ''b'', port = 80\<rparr>, \<lparr>name = ''c'', port = 80\<rparr>],
      Callback 1 True, Callback 1 True, Elapse 10000, TimerFires 0,
      GetNextEndpoint, GetNextEndpoint]"

text \<open>
  Events on a new rate-policy pool: one endpoint is registered and five outcomes are
  reported on it.
\<close>

definition example_rate_events :: "event list" where
  "example_rate_events =
     [UpdateEndpoints [\<lparr>name = ''a'', port = 80\<rparr>],
      Callback 0 True, Callback 0 True, Callback 0 False, Callback 0 False,
      Callback 0 False]"

text \<open>
  The double that the literal \<open>0.28\<close> denotes, and the events on a new rate-policy pool
  with this \<open>failureRate\<close>, \<open>failureRateWindow = 25\<close> and \<open>resetTimeout = 10000\<close> that
  register one endpoint and report seven failures on it.
\<close>

definition example_failureRate :: rat where
  "example_failureRate = 1261007895663739 / 2 ^ 52"


subsection \<open>The buffers of a run\<close>

text \<open>The capacity of the buffer that policy \<open>p\<close> gives an endpoint at registration.\<close>

fun capacity :: "policy \<Rightarrow> nat" where
  "capacity NoPolicy = 0"
| "capacity (RollingWindow fw mf r) = mf - 1"
| "capacity (Rate fr frw r) = frw"

text \<open>
  Every buffer on the heap is a new buffer of the capacity of the policy that has
  received a list of writes, and no write at all when that capacity is 0.
\<close>

definition buffers_inv :: "policy \<Rightarrow> runtime \<Rightarrow> bool" where
  "buffers_inv p rt =
     (\<forall>a<length (heap rt). \<forall>b. buffer (heap rt ! a) = Some b \<longrightarrow>
        (\<exists>ws. b = write_all (new_RingBuffer (capacity p)) ws \<and> (capacity p = 0 \<longrightarrow> ws = [])))"

text \<open>
  The options of a rolling-window pool with \<open>maxFailures = 1\<close>, whose buffers have
  capacity 0, and events on it: its endpoint is registered, fails, is set to
  \<open>HALF_OPEN_READY\<close> by its timer, is handed out, and fails twice more.
\<close>

definition example_single_options :: eject_options where
  "example_single_options =
     \<lparr>failureWindow = Some 10000, maxFailures = Some 1, resetTimeout = Some 10000,
      failureRate = None, failureRateWindow = None\<rparr>"

definition example_single_events :: "event list" where
  "example_single_events =
     [UpdateEndpoints [\<lparr>name = ''a'', port = 80\<rparr>],
      Callback 0 True, Elapse 10000, TimerFires 0, GetNextEndpoint,
      Callback 0 True, Callback 0 True]"

section \<open>Properties of JavaScript numbers\<close>

lemma floor_rat_numeral:
  "\<lfloor>numeral a / numeral b :: rat\<rfloor> = numeral a div numeral b"
  "\<lfloor>- (numeral a / numeral b) :: rat\<rfloor> = - numeral a div numeral b"
  "\<lceil>numeral a / numeral b :: rat\<rceil> = - (- numeral a div numeral b)"
  "\<lceil>- (numeral a / numeral b) :: rat\<rceil> = - (numeral a div numeral b)"
  "\<lfloor>1 / numeral b :: rat\<rfloor> = 1 div numeral b"
  "\<lceil>1 / numeral b :: rat\<rceil> = - (- 1 div numeral b)"
  using floor_divide_of_int_eq [of "numeral a" "numeral b", where ?'a = rat]
    floor_divide_of_int_eq [of "- numeral a" "numeral b", where ?'a = rat]
    floor_divide_of_int_eq [of 1 "numeral b", where ?'a = rat]
    floor_divide_of_int_eq [of "- 1" "numeral b", where ?'a = rat]
  by (simp_all add: ceiling_def)

lemmas number_eval =
  js_times_def round_double_def round_half_even_def ilog2_def pow2_def bit_length.simps
  Let_def floor_rat_numeral

text \<open>
  Products as the language computes them: \<open>0.5 * 4\<close> is 2 and \<open>0.01 * 100\<close> is 1, but
  \<open>0.28 * 25\<close> is \<open>7.000000000000001\<close> and \<open>0.1 * 3\<close> is \<open>0.30000000000000004\<close>. The
  literals denote the doubles nearest to them, and the product is the same whether a
  factor is given by the value of the literal or by the value of the double.
\<close>

lemma round_double_literals:
  "round_double (1 / 2) = Finite (1 / 2)"
  "round_double (28 / 100) = Finite (1261007895663739 / 2 ^ 52)"
  "round_double (1 / 100) = Finite (5764607523034235 / 2 ^ 59)"
  "round_double (1 / 10) = Finite (3602879701896397 / 2 ^ 55)"
  "round_double (3 / 10) = Finite (5404319552844595 / 2 ^ 54)"
  "round_double 7 = Finite 7"
  by (simp_all add: number_eval)

lemma js_times_half_4: "js_times (1 / 2) 4 = Finite 2"
  by (simp add: number_eval)

lemma js_times_028_25: "js_times (1261007895663739 / 2 ^ 52) 25 = Finite (7 + 1 / 2 ^ 50)"
  by (simp add: number_eval)

lemma js_times_001_100: "js_times (5764607523034235 / 2 ^ 59) 100 = Finite 1"
  by (simp add: number_eval)

lemma js_times_01_3:
  "js_times (3602879701896397 / 2 ^ 55) 3 = Finite (5404319552844595 / 2 ^ 54 + 1 / 2 ^ 54)"
  by (simp add: number_eval)

lemma js_times_literals:
  "js_times (28 / 100) 25 = Finite (7 + 1 / 2 ^ 50)"
  "js_times (1 / 100) 100 = Finite 1"
  "js_times (1 / 10) 3 = Finite (5404319552844595 / 2 ^ 54 + 1 / 2 ^ 54)"
  by (simp_all add: number_eval)


text \<open>Ties go to the even significand; beyond the range the result is an infinity.\<close>

lemma round_double_ties:
  "round_double (2 ^ 53 + 1) = Finite (2 ^ 53)"
  "round_double (2 ^ 53 + 3) = Finite (2 ^ 53 + 4)"
  "round_double (- (2 ^ 53) - 1) = Finite (- (2 ^ 53))"
  by (simp_all add: number_eval)

lemma round_double_range:
  "round_double (2 ^ 1024 - 2 ^ 970) = PlusInfinity"
  "round_double (3 / 2 ^ 1075) = Finite (2 / 2 ^ 1074)"
  by (simp_all add: number_eval)

section \<open>Properties of the RingBuffer\<close>

lemma rb_wf_new: "0 < c \<Longrightarrow> rb_wf (new_RingBuffer c)"
  by (simp add: rb_wf_def new_RingBuffer_def)

lemma rb_window_new: "rb_window (new_RingBuffer c) = replicate c None"
  by (simp add: rb_window_def new_RingBuffer_def)

lemma rb_size_write_rb: "rb_size (write_rb rb v) = rb_size rb"
  by (simp add: write_rb_def split: index.splits)

lemma rb_wf_write_rb: "rb_wf rb \<Longrightarrow> rb_wf (write_rb rb v)"
  by (auto simp: rb_wf_def write_rb_def array_set_def js_mod_def split: index.splits)


lemma read_window: "rb_wf rb \<Longrightarrow> read rb = hd (rb_window rb)"
  by (auto simp: rb_wf_def rb_window_def read_def array_get_def hd_append hd_drop_conv_nth
           split: index.splits)

lemma rb_window_write_rb:
  assumes "rb_wf rb"
  shows "rb_window (write_rb rb v) = tl (rb_window rb) @ [Some v]"
proof -
  from assms obtain i where off: "rb_offset rb = Idx i" and i: "i < rb_size rb"
    and len: "length (rb_buffer rb) = rb_size rb"
    by (auto simp: rb_wf_def split: index.splits)
  let ?xs = "rb_buffer rb"
  have w: "rb_window rb = drop i ?xs @ take i ?xs"
    by (simp add: rb_window_def off)
  have tlw: "tl (rb_window rb) = drop (Suc i) ?xs @ take i ?xs"
    using i len by (simp add: w Cons_nth_drop_Suc [symmetric])
  show ?thesis
  proof (cases "Suc i = rb_size rb")
    case True
    then have "rb_window (write_rb rb v) = ?xs[i := Some v]"
      using i len by (simp add: rb_window_def write_rb_def off array_set_def js_mod_def)
    also have "\<dots> = take i ?xs @ [Some v]"
      using True len by (simp add: upd_conv_take_nth_drop)
    finally show ?thesis using True len by (simp add: tlw)
  next
    case False
    then have lt: "Suc i < rb_size rb" using i by simp
    then have "rb_window (write_rb rb v) =
        drop (Suc i) (?xs[i := Some v]) @ take (Suc i) (?xs[i := Some v])"
      using len by (simp add: rb_window_def write_rb_def off array_set_def js_mod_def)
    also have "\<dots> = drop (Suc i) ?xs @ take i ?xs @ [Some v]"
      using i len by (simp add: take_Suc_conv_app_nth)
    finally show ?thesis by (simp add: tlw)
  qed
qed

lemma write_all_snoc: "write_all rb (vs @ [v]) = write_rb (write_all rb vs) v"
  by (simp add: write_all_def)

lemma rb_wf_write_all: "rb_wf rb \<Longrightarrow> rb_wf (write_all rb vs)"
proof (induction vs rule: rev_induct)
  case Nil
  then show ?case by (simp add: write_all_def)
next
  case (snoc v vs)
  then show ?case by (simp add: write_all_snoc rb_wf_write_rb)
qed

lemma rb_window_write_all:
  "0 < c \<Longrightarrow>
   rb_window (write_all (new_RingBuffer c) vs) =
     drop (length vs) (replicate c None @ map Some vs)"
proof (induction vs rule: rev_induct)
  case Nil
  then show ?case by (simp add: write_all_def rb_window_new)
next
  case (snoc v vs)
  let ?X = "replicate c None @ map Some vs"
  have wf: "rb_wf (write_all (new_RingBuffer c) vs)"
    using snoc.prems by (simp add: rb_wf_write_all rb_wf_new)
  have "rb_window (write_all (new_RingBuffer c) (vs @ [v])) =
      tl (drop (length vs) ?X) @ [Some v]"
    using snoc by (simp only: write_all_snoc rb_window_write_rb [OF wf])
  also have "tl (drop (length vs) ?X) = drop (Suc (length vs)) ?X"
    by (simp only: drop_Suc tl_drop)
  also have "drop (Suc (length vs)) ?X @ [Some v] = drop (Suc (length vs)) (?X @ [Some v])"
    using snoc.prems by (simp only: drop_append) simp
  finally show ?case by simp
qed

lemma read_write_all:
  assumes "0 < c"
  shows "read (write_all (new_RingBuffer c) vs) =
    (if length vs < c then None else Some (vs ! (length vs - c)))"
proof -
  let ?X = "replicate c None @ map Some vs"
  have wf: "rb_wf (write_all (new_RingBuffer c) vs)"
    using assms by (simp add: rb_wf_write_all rb_wf_new)
  have "read (write_all (new_RingBuffer c) vs) = hd (drop (length vs) ?X)"
    using assms by (simp only: read_window [OF wf] rb_window_write_all)
  also have "\<dots> = ?X ! length vs"
    using assms by (intro hd_drop_conv_nth) simp
  also have "\<dots> = (if length vs < c then None else Some (vs ! (length vs - c)))"
    using assms by (simp add: nth_append)
  finally show ?thesis .
qed

lemma write_all_shape:
  "0 < c \<Longrightarrow>
   rb_offset (write_all (new_RingBuffer c) vs) = Idx (length vs mod c) \<and>
   rb_size (write_all (new_RingBuffer c) vs) = c \<and>
   length (rb_buffer (write_all (new_RingBuffer c) vs)) = c"
proof (induction vs rule: rev_induct)
  case Nil
  then show ?case by (simp add: write_all_def new_RingBuffer_def)
next
  case (snoc v vs)
  then show ?case
    by (simp add: write_all_snoc write_rb_def js_mod_def array_set_def mod_Suc_eq)
qed

section \<open>Properties of the runtime operations\<close>

lemma heap_modify [simp]: "heap (modify rt a f) = (heap rt)[a := f (heap rt ! a)]"
  and timers_modify [simp]: "timers (modify rt a f) = timers rt"
  and next_timer_id_modify [simp]: "next_timer_id (modify rt a f) = next_timer_id rt"
  and now_modify [simp]: "now (modify rt a f) = now rt"
  by (simp_all add: modify_def)

lemma disableEndpoint_OPEN:
  "state (heap rt ! a) = Some OPEN \<Longrightarrow> disableEndpoint r rt a = rt"
  by (simp add: disableEndpoint_def)

lemma disableEndpoint_not_OPEN:
  assumes "a < length (heap rt)" "state (heap rt ! a) \<noteq> Some OPEN"
  shows "disableEndpoint r rt a =
    rt\<lparr>heap := (heap rt)[a := (heap rt ! a)\<lparr>state := Some OPEN,
             reopenTimeout := Some (next_timer_id rt)\<rparr>],
       timers := filter (\<lambda>t. Some (timer_id t) \<noteq> reopenTimeout (heap rt ! a)) (timers rt) @
         [\<lparr>timer_id = next_timer_id rt, due = now rt + int r, target = a\<rparr>],
       next_timer_id := Suc (next_timer_id rt)\<rparr>"
  using assms
  by (cases "reopenTimeout (heap rt ! a)")
     (simp_all add: disableEndpoint_def Let_def setTimeout_def clearInterval_def)

lemma disableEndpoint_length [simp]:
  "length (heap (disableEndpoint r rt a)) = length (heap rt)"
  by (simp add: disableEndpoint_def Let_def setTimeout_def clearInterval_def
      split: option.splits)

lemma disableEndpoint_now [simp]: "now (disableEndpoint r rt a) = now rt"
  by (simp add: disableEndpoint_def Let_def setTimeout_def clearInterval_def
      split: option.splits)

lemma disableEndpoint_other:
  "a' \<noteq> a \<Longrightarrow> heap (disableEndpoint r rt a) ! a' = heap rt ! a'"
  by (simp add: disableEndpoint_def Let_def setTimeout_def clearInterval_def
      split: option.splits)

lemma disableEndpoint_state:
  "a < length (heap rt) \<Longrightarrow> state (heap (disableEndpoint r rt a) ! a) = Some OPEN"
  by (cases "state (heap rt ! a) = Some OPEN")
     (simp_all add: disableEndpoint_OPEN disableEndpoint_not_OPEN)

lemma disableEndpoint_idem:
  "a < length (heap rt) \<Longrightarrow>
   disableEndpoint r (disableEndpoint r rt a) a = disableEndpoint r rt a"
  by (simp add: disableEndpoint_OPEN disableEndpoint_state)

section \<open>The rolling-window policy\<close>

lemma rolling_decision:
  "(case x of None \<Rightarrow> False | Some t \<Rightarrow> n - t \<le> (w::int)) = (\<exists>t. x = Some t \<and> n - t \<le> w)"
  by (cases x) simp_all

text \<open>
  Claim C3. Under the rolling-window policy the registration hook gives the endpoint a
  buffer of capacity \<open>maxFailures - 1\<close>. For an endpoint that has its buffer, a
  reported failure is ignored when the state is \<open>OPEN\<close>; disables the endpoint at once
  when the capacity is 0; and otherwise reads the oldest timestamp, writes the current
  time into the buffer and disables the endpoint if and only if the state was
  \<open>HALF_OPEN_PENDING\<close> or an oldest timestamp exists with
  \<open>now - oldest \<le> failureWindow\<close>. A reported success turns \<open>HALF_OPEN_PENDING\<close> into
  \<open>CLOSED\<close> and changes nothing in any other state.
\<close>

theorem rolling_onEndpointReturned_cases:
  assumes a: "endpoint < length (heap rt)"
    and b: "buffer (heap rt ! endpoint) = Some b"
  shows
    "(state (heap rt ! endpoint) = Some OPEN \<longrightarrow>
        onEndpointReturned (getRollingWindowConfiguration fw mf r) rt endpoint True = Inr rt) \<and>
     (state (heap rt ! endpoint) \<noteq> Some OPEN \<and> rb_size b = 0 \<longrightarrow>
        onEndpointReturned (getRollingWindowConfiguration fw mf r) rt endpoint True =
          Inr (disableEndpoint r rt endpoint)) \<and>
     (state (heap rt ! endpoint) \<noteq> Some OPEN \<and> rb_size b \<noteq> 0 \<longrightarrow>
        (\<exists>rt'. onEndpointReturned (getRollingWindowConfiguration fw mf r) rt endpoint True =
            Inr rt' \<and>
          rt' = (let rt1 = modify rt endpoint (\<lambda>e. e\<lparr>buffer := Some (write_rb b (now rt))\<rparr>)
                 in if state (heap rt ! endpoint) = Some HALF_OPEN_PENDING \<or>
                       (\<exists>t. read b = Some t \<and> now rt - t \<le> fw)
                    then disableEndpoint r rt1 endpoint else rt1) \<and>
          buffer (heap rt' ! endpoint) = Some (write_rb b (now rt)) \<and>
          (state (heap rt' ! endpoint) = Some OPEN \<longleftrightarrow>
             state (heap rt ! endpoint) = Some HALF_OPEN_PENDING \<or>
             (\<exists>t. read b = Some t \<and> now rt - t \<le> fw)))) \<and>
     onEndpointReturned (getRollingWindowConfiguration fw mf r) rt endpoint False =
       Inr (if state (heap rt ! endpoint) = Some HALF_OPEN_PENDING
            then modify rt endpoint (\<lambda>e. e\<lparr>state := Some CLOSED\<rparr>) else rt) \<and>
     buffer (heap (onEndpointRegistered (getRollingWindowConfiguration fw mf r) rt endpoint)
        ! endpoint) = Some (new_RingBuffer (mf - 1)) \<and>
     rb_size (new_RingBuffer (mf - 1)) = mf - 1"
proof -
  let ?ret = "onEndpointReturned (getRollingWindowConfiguration fw mf r) rt endpoint"
  let ?s = "state (heap rt ! endpoint)"
  let ?rt1 = "modify rt endpoint (\<lambda>e. e\<lparr>buffer := Some (write_rb b (now rt))\<rparr>)"
  let ?c = "?s = Some HALF_OPEN_PENDING \<or> (\<exists>t. read b = Some t \<and> now rt - t \<le> fw)"
  have ret: "?ret = rollingOnEndpointReturned fw r rt endpoint"
    by (simp add: getRollingWindowConfiguration_def)
  have 1: "?s = Some OPEN \<Longrightarrow> ?ret True = Inr rt"
    by (simp add: ret rollingOnEndpointReturned_def)
  have 2: "?s \<noteq> Some OPEN \<Longrightarrow> rb_size b = 0 \<Longrightarrow> ?ret True = Inr (disableEndpoint r rt endpoint)"
    by (simp add: ret rollingOnEndpointReturned_def b)
  have s1: "state (heap ?rt1 ! endpoint) = ?s" "buffer (heap ?rt1 ! endpoint) = Some (write_rb b (now rt))"
    "endpoint < length (heap ?rt1)"
    using a by simp_all
  have 3: "?ret True = Inr (if ?c then disableEndpoint r ?rt1 endpoint else ?rt1)"
    if "?s \<noteq> Some OPEN" "rb_size b \<noteq> 0"
    using that a by (auto simp: ret rollingOnEndpointReturned_def b Let_def rolling_decision)
  have b3: "buffer (heap (if ?c then disableEndpoint r ?rt1 endpoint else ?rt1) ! endpoint) =
      Some (write_rb b (now rt))"
    if "?s \<noteq> Some OPEN"
    using that a s1 by (simp add: disableEndpoint_not_OPEN)
  have c3: "state (heap (if ?c then disableEndpoint r ?rt1 endpoint else ?rt1) ! endpoint) = Some OPEN
      \<longleftrightarrow> ?c"
    if "?s \<noteq> Some OPEN"
    using that s1 by (simp add: disableEndpoint_state)
  have 4: "?ret False = Inr (if ?s = Some HALF_OPEN_PENDING
            then modify rt endpoint (\<lambda>e. e\<lparr>state := Some CLOSED\<rparr>) else rt)"
    by (simp add: ret rollingOnEndpointReturned_def)
  have 5: "buffer (heap (onEndpointRegistered (getRollingWindowConfiguration fw mf r) rt endpoint)
        ! endpoint) = Some (new_RingBuffer (mf - 1))"
    using a by (simp add: getRollingWindowConfiguration_def rollingOnEndpointRegistered_def)
  have 6: "rb_size (new_RingBuffer (mf - 1)) = mf - 1"
    by (simp add: new_RingBuffer_def)
  show ?thesis
    unfolding Let_def using 1 2 3 b3 c3 4 5 6 by blast
qed


theorem rolling_onEndpointReturned_cases_witness:
  "0 < length (heap example_rolling_runtime) \<and>
   buffer (heap example_rolling_runtime ! 0) =
     Some \<lparr>rb_buffer = [Some 0], rb_buffer_NaN = None, rb_offset = Idx 0, rb_size = 1\<rparr> \<and>
   (\<exists>rt'. onEndpointReturned (getRollingWindowConfiguration 10000 2 10000)
        example_rolling_runtime 0 True = Inr rt' \<and>
      state (heap rt' ! 0) = Some OPEN \<and>
      buffer (heap rt' ! 0) =
        Some \<lparr>rb_buffer = [Some 5], rb_buffer_NaN = None, rb_offset = Idx 0, rb_size = 1\<rparr>) \<and>
   onEndpointReturned (getRollingWindowConfiguration 10000 2 10000)
     example_rolling_runtime 0 False = Inr example_rolling_runtime"
proof -
  let ?b = "\<lparr>rb_buffer = [Some 0], rb_buffer_NaN = None, rb_offset = Idx 0, rb_size = 1\<rparr>"
  have a: "0 < length (heap example_rolling_runtime)"
    and b: "buffer (heap example_rolling_runtime ! 0) = Some ?b"
    by (simp_all add: example_rolling_runtime_def)
  have s: "state (heap example_rolling_runtime ! 0) = Some CLOSED"
    and n: "now example_rolling_runtime = 5"
    by (simp_all add: example_rolling_runtime_def)
  have r: "read ?b = Some 0" and w: "write_rb ?b 5 = ?b\<lparr>rb_buffer := [Some 5]\<rparr>"
    by (simp_all add: read_def write_rb_def array_get_def array_set_def js_mod_def)
  note t = rolling_onEndpointReturned_cases [OF a b, of 10000 2 10000]
  have c: "state (heap example_rolling_runtime ! 0) \<noteq> Some OPEN \<and> rb_size ?b \<noteq> 0"
    by (simp add: s)
  from t [THEN conjunct2, THEN conjunct2, THEN conjunct1, rule_format, OF c]
  obtain rt' where 1: "onEndpointReturned (getRollingWindowConfiguration 10000 2 10000)
        example_rolling_runtime 0 True = Inr rt'"
    and 2: "buffer (heap rt' ! 0) = Some (write_rb ?b (now example_rolling_runtime))"
    and 3: "(state (heap rt' ! 0) = Some OPEN) =
      (state (heap example_rolling_runtime ! 0) = Some HALF_OPEN_PENDING \<or>
       (\<exists>t. read ?b = Some t \<and> now example_rolling_runtime - t \<le> 10000))"
    by blast
  have "\<exists>t. read ?b = Some t \<and> now example_rolling_runtime - t \<le> 10000"
    by (rule exI [of _ 0]) (simp add: n read_def array_get_def)
  with 3 have "state (heap rt' ! 0) = Some OPEN" by simp
  moreover have "buffer (heap rt' ! 0) = Some (?b\<lparr>rb_buffer := [Some 5]\<rparr>)"
    using 2 by (simp only: n w)
  ultimately have "\<exists>rt'. onEndpointReturned (getRollingWindowConfiguration 10000 2 10000)
        example_rolling_runtime 0 True = Inr rt' \<and>
      state (heap rt' ! 0) = Some OPEN \<and>
      buffer (heap rt' ! 0) = Some (?b\<lparr>rb_buffer := [Some 5]\<rparr>)"
    using 1 by blast
  moreover have "onEndpointReturned (getRollingWindowConfiguration 10000 2 10000)
     example_rolling_runtime 0 False = Inr example_rolling_runtime"
    using t [THEN conjunct2, THEN conjunct2, THEN conjunct2, THEN conjunct1] by (simp add: s)
  ultimately show ?thesis using a b by simp
qed

section \<open>The rate policy\<close>

text \<open>
  Claim C5, as the code has it. With \<open>failureRate = 0.5\<close>, \<open>failureRateWindow = 4\<close> and
  \<open>resetTimeout = 10000\<close>, the outcomes fail, fail, success, success on a freshly
  registered endpoint keep \<open>errors \<le> 2\<close> throughout (1, 2, 2, 2). The endpoint is
  usable after the first outcome; the second failure brings \<open>errors\<close> to
  \<open>maxErrorCount = 2\<close> and disables the endpoint, which is \<open>OPEN\<close> and not usable after
  the second, the third and the fourth outcome.
\<close>

theorem rate_example_outcomes:
  "errors (heap (example_rate_after [True]) ! 0) = Some 1 \<and>
   fst (isInPool (fst example_rate_pool) (example_rate_after [True]) 0) \<and>
   errors (heap (example_rate_after [True, True]) ! 0) = Some 2 \<and>
   state (heap (example_rate_after [True, True]) ! 0) = Some OPEN \<and>
   \<not> fst (isInPool (fst example_rate_pool) (example_rate_after [True, True]) 0) \<and>
   errors (heap (example_rate_after [True, True, False]) ! 0) = Some 2 \<and>
   \<not> fst (isInPool (fst example_rate_pool) (example_rate_after [True, True, False]) 0) \<and>
   errors (heap (example_rate_after [True, True, False, False]) ! 0) = Some 2 \<and>
   \<not> fst (isInPool (fst example_rate_pool) (example_rate_after [True, True, False, False]) 0)"
  by (simp add: example_rate_after_def example_rate_pool_def report_all_def
      new_PoolManager_def getRateConfiguration_def new_runtime_def updateEndpoints_def
      Let_def new_Endpoint_def string_of_nat.simps register_def modify_def
      rateOnEndpointRegistered_def rateOnEndpointReturned_def disableEndpoint_def
      setTimeout_def clearInterval_def new_RingBuffer_def read_def write_rb_def
      array_get_def array_set_def js_mod_def truthy_def errors_ge_def ejectIsInPool_def
      js_times_half_4)

text \<open>
  Claim C5 as stated fails: after the second failure the endpoint is not usable.
\<close>

theorem rate_example_counterexample:
  "\<not> fst (isInPool (fst example_rate_pool) (example_rate_after [True, True]) 0)"
  by (simp add: example_rate_after_def example_rate_pool_def report_all_def
      new_PoolManager_def getRateConfiguration_def new_runtime_def updateEndpoints_def
      Let_def new_Endpoint_def string_of_nat.simps register_def modify_def
      rateOnEndpointRegistered_def rateOnEndpointReturned_def disableEndpoint_def
      setTimeout_def clearInterval_def new_RingBuffer_def read_def write_rb_def
      array_get_def array_set_def js_mod_def truthy_def errors_ge_def ejectIsInPool_def
      js_times_half_4)

section \<open>The pool manager\<close>

lemma pool_of_simps [simp]:
  "endpoints (pool_of p es k) = es"
  "endpointOffset (pool_of p es k) = k"
  "isInPool (pool_of p es k) = isInPool (poolConfig p)"
  "onEndpointSelected (pool_of p es k) = onEndpointSelected (poolConfig p)"
  "onEndpointRegistered (pool_of p es k) = onEndpointRegistered (poolConfig p)"
  "onEndpointReturned (pool_of p es k) = onEndpointReturned (poolConfig p)"
  "(pool_of p es k)\<lparr>endpoints := es'\<rparr> = pool_of p es' k"
  "(pool_of p es k)\<lparr>endpointOffset := k'\<rparr> = pool_of p es k'"
  by (simp_all add: pool_of_def new_PoolManager_def)

lemma isInPool_policy: "isInPool (poolConfig p) rt a = (usable p (heap rt ! a), rt)"
  by (cases p)
     (simp_all add: defaultOptions_def getRollingWindowConfiguration_def
       getRateConfiguration_def ejectIsInPool_def)

lemma modify_id: "modify rt a (\<lambda>e. e) = rt"
  by (simp add: modify_def)

lemma onEndpointSelected_policy:
  "onEndpointSelected (poolConfig p) rt a = modify rt a (selected p)"
  by (cases p)
     (simp_all add: defaultOptions_def getRollingWindowConfiguration_def
       getRateConfiguration_def ejectOnEndpointSelected_def modify_def)

lemma getStatus_fold:
  "fold (\<lambda>endpoint (badCount, rt).
           let u = isInPool (poolConfig p) rt endpoint
           in (badCount + (if fst u then 0 else 1), snd u)) es (n, rt) =
   (n + length (filter (\<lambda>a. \<not> fst (isInPool (poolConfig p) rt a)) es), rt)"
  by (induction es arbitrary: n) (simp_all add: isInPool_policy)

text \<open>
  Claim C10. For every pool the module builds, \<open>getStatus\<close> returns the size of the
  collection as \<open>total\<close> and the number of endpoints for which \<open>isInPool\<close> is false as
  \<open>unhealthy\<close>, and it returns the runtime as it received it: no endpoint object (state,
  buffer, error count, timer handle), no timer and not the clock is changed, and the
  manager keeps its collection and its rotation offset.
\<close>

theorem getStatus_read_only:
  "getStatus (pool_of p es k) rt =
     (\<lparr>total = length es,
       unhealthy = length (filter (\<lambda>a. \<not> fst (isInPool (pool_of p es k) rt a)) es)\<rparr>, rt) \<and>
   step (pool_of p es k, rt) GetStatus = (pool_of p es k, rt)"
  by (simp add: getStatus_def getStatus_fold)

lemma getNextEndpoint_loop_find:
  "getNextEndpoint_loop (pool_of p es k) rt i l =
     (case find (\<lambda>offset. usable p (heap rt ! (es ! offset)))
             (map (\<lambda>i. (k + i) mod l) [i ..< l]) of
        None \<Rightarrow> (None, pool_of p es k, rt)
      | Some offset \<Rightarrow>
          (Some (es ! offset), pool_of p es (offset + 1),
           modify rt (es ! offset) (selected p)))"
proof (induction "l - i" arbitrary: i)
  case 0
  then show ?case
    by (subst getNextEndpoint_loop.simps) simp
next
  case (Suc n)
  then have il: "i < l" and n: "n = l - (i + 1)" by simp_all
  have upt: "[i ..< l] = i # [i + 1 ..< l]"
    using il by (simp add: upt_conv_Cons)
  show ?case
  proof (cases "usable p (heap rt ! (es ! ((k + i) mod l)))")
    case True
    with il show ?thesis
      by (subst getNextEndpoint_loop.simps)
         (simp add: upt isInPool_policy onEndpointSelected_policy Let_def)
  next
    case False
    have "getNextEndpoint_loop (pool_of p es k) rt i l =
        getNextEndpoint_loop (pool_of p es k) rt (i + 1) l"
      using il False
      by (subst getNextEndpoint_loop.simps) (simp add: isInPool_policy Let_def)
    also note Suc.hyps(1) [OF n]
    finally show ?thesis using False by (simp add: upt)
  qed
qed

lemma getNextEndpoint_spec:
  "getNextEndpoint (pool_of p es k) rt =
     (case first_usable (pool_of p es k) rt of
        None \<Rightarrow> (None, pool_of p es k, rt)
      | Some offset \<Rightarrow>
          (Some (es ! offset), (pool_of p es k)\<lparr>endpointOffset := offset + 1\<rparr>,
           onEndpointSelected (pool_of p es k) rt (es ! offset)))"
  by (simp add: getNextEndpoint_def getNextEndpoint_loop_find first_usable_def scan_order_def
      isInPool_policy onEndpointSelected_policy split: option.splits)

lemma getNextEndpoint_head_usable:
  assumes "es \<noteq> []" "usable p (heap rt ! (es ! (k mod length es)))"
  shows "getNextEndpoint (pool_of p es k) rt =
    (Some (es ! (k mod length es)), pool_of p es (k mod length es + 1),
     modify rt (es ! (k mod length es)) (selected p))"
proof -
  have "[0 ..< length es] = 0 # [1 ..< length es]"
    using assms(1) by (simp add: upt_conv_Cons)
  then show ?thesis
    using assms(2) by (simp add: getNextEndpoint_def getNextEndpoint_loop_find)
qed

lemma getNextEndpoints_rotation:
  assumes "distinct es" "n \<le> length es"
    and "\<forall>i<n. usable p (heap rt ! (es ! ((k + i) mod length es)))"
  shows "fst (getNextEndpoints n (pool_of p es k) rt) =
    map (\<lambda>i. Some (es ! ((k + i) mod length es))) [0 ..< n]"
  using assms(2,3)
proof (induction n arbitrary: k rt)
  case 0
  then show ?case by simp
next
  case (Suc n)
  let ?l = "length es"
  let ?a = "es ! (k mod ?l)"
  let ?rt = "modify rt ?a (selected p)"
  from Suc.prems have ne: "es \<noteq> []" and l: "0 < ?l" by auto
  have u0: "usable p (heap rt ! ?a)"
    using Suc.prems(2) by (auto dest: spec [of _ 0])
  have first: "getNextEndpoint (pool_of p es k) rt = (Some ?a, pool_of p es (k mod ?l + 1), ?rt)"
    by (rule getNextEndpoint_head_usable [OF ne u0])
  have idx: "(k mod ?l + 1 + i) mod ?l = (k + Suc i) mod ?l" for i
  proof -
    have "(k mod ?l + (1 + i)) mod ?l = (k + (1 + i)) mod ?l"
      by (rule mod_add_left_eq)
    then show ?thesis by (simp add: add.assoc)
  qed
  have rest: "\<forall>i<n. usable p (heap ?rt ! (es ! ((k mod ?l + 1 + i) mod ?l)))"
  proof (intro allI impI)
    fix i assume i: "i < n"
    then have si: "Suc i < ?l" using Suc.prems(1) by simp
    have "(k + Suc i) mod ?l \<noteq> k mod ?l"
    proof
      assume eq: "(k + Suc i) mod ?l = k mod ?l"
      have "k \<le> k + Suc i" by simp
      from mod_eq_nat1E [OF eq this] obtain q where "k + Suc i = k + ?l * q" .
      then have q: "Suc i = ?l * q" by simp
      then have "q \<noteq> 0" by (cases q) auto
      then have "?l \<le> ?l * q" by simp
      with q si show False by simp
    qed
    then have "es ! ((k + Suc i) mod ?l) \<noteq> ?a"
      using assms(1) l by (simp add: nth_eq_iff_index_eq)
    then have "heap ?rt ! (es ! ((k + Suc i) mod ?l)) = heap rt ! (es ! ((k + Suc i) mod ?l))"
      by simp
    moreover have "usable p (heap rt ! (es ! ((k + Suc i) mod ?l)))"
      using Suc.prems(2) [rule_format, of "Suc i"] i by simp
    ultimately show "usable p (heap ?rt ! (es ! ((k mod ?l + 1 + i) mod ?l)))"
      by (simp only: idx)
  qed
  have n: "n \<le> ?l" using Suc.prems(1) by simp
  have "fst (getNextEndpoints (Suc n) (pool_of p es k) rt) =
      Some ?a # map (\<lambda>i. Some (es ! ((k mod ?l + 1 + i) mod ?l))) [0 ..< n]"
    using Suc.IH [OF n rest] by (simp add: first Let_def)
  also have "\<dots> = Some (es ! ((k + 0) mod ?l)) # map (\<lambda>i. Some (es ! ((k + Suc i) mod ?l))) [0 ..< n]"
    by (simp only: idx) simp
  also have "\<dots> = map (\<lambda>i. Some (es ! ((k + i) mod ?l))) (0 # map Suc [0 ..< n])"
    by (simp add: comp_def)
  also have "0 # map Suc [0 ..< n] = [0 ..< Suc n]"
    by (simp only: map_Suc_upt upt_conv_Cons [OF zero_less_Suc])
  finally show ?case .
qed

lemma rotation_order:
  "map (\<lambda>i. es ! ((k + i) mod length es)) [0 ..< length es] = rotate k es"
proof (intro nth_equalityI)
  show "length (map (\<lambda>i. es ! ((k + i) mod length es)) [0 ..< length es]) = length (rotate k es)"
    by simp
next
  fix i assume "i < length (map (\<lambda>i. es ! ((k + i) mod length es)) [0 ..< length es])"
  then have i: "i < length es" by simp
  then show "map (\<lambda>i. es ! ((k + i) mod length es)) [0 ..< length es] ! i = rotate k es ! i"
    by (simp add: nth_rotate)
qed

lemma scan_mem: "i < length es \<Longrightarrow> es ! ((k + i) mod length es) \<in> set es"
  by (intro nth_mem mod_less_divisor) auto

lemma first_usable_iff:
  "first_usable (pool_of p es k) rt = Some offset \<longleftrightarrow>
     (\<exists>i<length es. offset = (k + i) mod length es \<and>
        fst (isInPool (pool_of p es k) rt (es ! offset)) \<and>
        (\<forall>j<i. \<not> fst (isInPool (pool_of p es k) rt (es ! ((k + j) mod length es)))))"
  by (auto simp: first_usable_def scan_order_def find_Some_iff)

lemma first_usable_None:
  "(\<forall>a\<in>set es. \<not> fst (isInPool (pool_of p es k) rt a)) \<Longrightarrow>
   first_usable (pool_of p es k) rt = None"
  by (auto simp: first_usable_def scan_order_def find_None_iff scan_mem)

text \<open>
  Claim C2. For every pool the module builds, \<open>getNextEndpoint\<close> looks at the offsets
  \<open>(endpointOffset + i) mod l\<close> for \<open>i = 0, \<dots>, l - 1\<close>, at most \<open>l\<close> candidates, and
  returns the endpoint at the first offset for which \<open>isInPool\<close> holds, after
  \<open>onEndpointSelected\<close> has run on it and with \<open>endpointOffset\<close> set to one past that
  offset. When no candidate is usable, and so for the empty pool, it returns none and
  changes nothing. When the endpoints of the collection are distinct objects and all
  usable, as many consecutive calls as there are endpoints return each endpoint once, in
  rotation order starting at the offset.
\<close>

theorem getNextEndpoint_round_robin:
  "getNextEndpoint (pool_of p es k) rt =
     (case first_usable (pool_of p es k) rt of
        None \<Rightarrow> (None, pool_of p es k, rt)
      | Some offset \<Rightarrow>
          (Some (es ! offset), (pool_of p es k)\<lparr>endpointOffset := offset + 1\<rparr>,
           onEndpointSelected (pool_of p es k) rt (es ! offset))) \<and>
   length (scan_order (pool_of p es k)) = length es \<and>
   (first_usable (pool_of p es k) rt = Some offset \<longleftrightarrow>
     (\<exists>i<length es. offset = (k + i) mod length es \<and>
        fst (isInPool (pool_of p es k) rt (es ! offset)) \<and>
        (\<forall>j<i. \<not> fst (isInPool (pool_of p es k) rt (es ! ((k + j) mod length es)))))) \<and>
   ((\<forall>a\<in>set es. \<not> fst (isInPool (pool_of p es k) rt a)) \<longrightarrow>
      getNextEndpoint (pool_of p es k) rt = (None, pool_of p es k, rt)) \<and>
   getNextEndpoint (pool_of p [] k) rt = (None, pool_of p [] k, rt) \<and>
   \<not> hasEndpoints (pool_of p [] k) \<and>
   (distinct es \<and> (\<forall>a\<in>set es. fst (isInPool (pool_of p es k) rt a)) \<longrightarrow>
      fst (getNextEndpoints (length es) (pool_of p es k) rt) = map Some (rotate k es))"
proof -
  have none: "getNextEndpoint (pool_of p es k) rt = (None, pool_of p es k, rt)"
    if "\<forall>a\<in>set es. \<not> fst (isInPool (pool_of p es k) rt a)"
    using first_usable_None [OF that] by (simp add: getNextEndpoint_spec)
  have empty: "getNextEndpoint (pool_of p [] k) rt = (None, pool_of p [] k, rt)"
    by (simp add: getNextEndpoint_spec [of p "[]"] first_usable_def scan_order_def)
  have rr: "fst (getNextEndpoints (length es) (pool_of p es k) rt) = map Some (rotate k es)"
    if d: "distinct es" and u: "\<forall>a\<in>set es. fst (isInPool (pool_of p es k) rt a)"
  proof -
    have "\<forall>i<length es. usable p (heap rt ! (es ! ((k + i) mod length es)))"
      using u by (auto simp: isInPool_policy scan_mem)
    from getNextEndpoints_rotation [OF d le_refl this]
    have "fst (getNextEndpoints (length es) (pool_of p es k) rt) =
        map Some (map (\<lambda>i. es ! ((k + i) mod length es)) [0 ..< length es])"
      by (simp add: comp_def)
    then show ?thesis by (simp only: rotation_order)
  qed
  show ?thesis
    using getNextEndpoint_spec [of p es k rt] first_usable_iff [of p es k rt offset]
      none empty rr
    by (simp add: scan_order_def hasEndpoints_def)
qed


lemma example_rolling_pool_eval:
  "fst example_rolling_pool = pool_of (RollingWindow 10000 2 10000) [0, 1, 2] 0"
  "map state (heap (snd example_rolling_pool)) = [Some CLOSED, Some CLOSED, Some CLOSED]"
  "timers (snd example_rolling_pool) = []"
  by (simp_all add: example_rolling_pool_def pool_of_def new_PoolManager_def
      getRollingWindowConfiguration_def new_runtime_def updateEndpoints_def Let_def
      new_Endpoint_def string_of_nat.simps register_def modify_def
      rollingOnEndpointRegistered_def findWhere_def without_def splice_1_def upt_rec)

theorem getNextEndpoint_round_robin_witness:
  "distinct [0, 1, 2 :: nat] \<and>
   fst (isInPool (pool_of (RollingWindow 10000 2 10000) [0, 1, 2] 1)
     (snd example_rolling_pool) 0) \<and>
   fst (isInPool (pool_of (RollingWindow 10000 2 10000) [0, 1, 2] 1)
     (snd example_rolling_pool) 1) \<and>
   fst (isInPool (pool_of (RollingWindow 10000 2 10000) [0, 1, 2] 1)
     (snd example_rolling_pool) 2) \<and>
   fst (getNextEndpoints 3 (pool_of (RollingWindow 10000 2 10000) [0, 1, 2] 1)
     (snd example_rolling_pool)) = [Some 1, Some 2, Some 0]"
proof -
  let ?pm = "pool_of (RollingWindow 10000 2 10000) [0, 1, 2] 1"
  let ?rt = "snd example_rolling_pool"
  have st: "state (heap ?rt ! 0) = Some CLOSED" "state (heap ?rt ! 1) = Some CLOSED"
    "state (heap ?rt ! 2) = Some CLOSED"
    using example_rolling_pool_eval(2)
    by (simp_all add: list_eq_iff_nth_eq)
  have u: "fst (isInPool ?pm ?rt 0)" "fst (isInPool ?pm ?rt 1)" "fst (isInPool ?pm ?rt 2)"
    using st by (simp_all add: getRollingWindowConfiguration_def ejectIsInPool_def)
  then have all: "\<forall>a\<in>set [0, 1, 2]. fst (isInPool ?pm ?rt a)"
    by simp
  have d: "distinct [0, 1, 2 :: nat]" by simp
  from getNextEndpoint_round_robin [of "RollingWindow 10000 2 10000" "[0, 1, 2]" 1 ?rt 0]
  have "distinct [0, 1, 2 :: nat] \<and> (\<forall>a\<in>set [0, 1, 2]. fst (isInPool ?pm ?rt a)) \<longrightarrow>
      fst (getNextEndpoints (length [0, 1, 2 :: nat]) ?pm ?rt) = map Some (rotate 1 [0, 1, 2])"
    by (elim conjE)
  with d all have "fst (getNextEndpoints (length [0, 1, 2 :: nat]) ?pm ?rt) =
      map Some (rotate 1 [0, 1, 2])"
    by blast
  moreover have "length [0, 1, 2 :: nat] = 3"
    and "map Some (rotate 1 [0, 1, 2 :: nat]) = [Some 1, Some 2, Some 0]"
    by simp_all
  ultimately have "fst (getNextEndpoints 3 ?pm ?rt) = [Some 1, Some 2, Some 0]"
    by (simp only:)
  with u d show ?thesis by blast
qed

lemma onEndpointRegistered_policy:
  "onEndpointRegistered (poolConfig p) rt a = modify rt a (registered p)"
  by (cases p)
     (simp_all add: defaultOptions_def getRollingWindowConfiguration_def
       getRateConfiguration_def rollingOnEndpointRegistered_def rateOnEndpointRegistered_def
       modify_def)

lemma register_policy:
  "a < length (heap rt) \<Longrightarrow>
   register (pool_of p es k) rt a =
     modify rt a (\<lambda>e. registered p (e\<lparr>callback := True\<rparr>))"
  by (simp add: register_def onEndpointRegistered_policy modify_def)

lemma fold_modify_frame:
  "timers (fold (\<lambda>c rt. modify rt c f) cs rt) = timers rt \<and>
   next_timer_id (fold (\<lambda>c rt. modify rt c f) cs rt) = next_timer_id rt \<and>
   now (fold (\<lambda>c rt. modify rt c f) cs rt) = now rt \<and>
   length (heap (fold (\<lambda>c rt. modify rt c f) cs rt)) = length (heap rt)"
  by (induction cs arbitrary: rt) simp_all

lemma fold_modify_other:
  "a \<notin> set cs \<Longrightarrow> heap (fold (\<lambda>c rt. modify rt c f) cs rt) ! a = heap rt ! a"
  by (induction cs arbitrary: rt) simp_all

lemma fold_modify_at:
  "distinct cs \<Longrightarrow> a \<in> set cs \<Longrightarrow> a < length (heap rt) \<Longrightarrow>
   heap (fold (\<lambda>c rt. modify rt c f) cs rt) ! a = f (heap rt ! a)"
proof (induction cs arbitrary: rt)
  case Nil
  then show ?case by simp
next
  case (Cons c cs)
  show ?case
  proof (cases "a = c")
    case True
    then have "a \<notin> set cs" using Cons.prems(1) by simp
    then show ?thesis using True Cons.prems(3) by (simp add: fold_modify_other)
  next
    case False
    then show ?thesis using Cons by simp
  qed
qed

lemma fold_register:
  "\<forall>c\<in>set cs. c < length (heap rt) \<Longrightarrow>
   fold (\<lambda>endpoint rt. register (pool_of p es k) rt endpoint) cs rt =
   fold (\<lambda>c rt. modify rt c (\<lambda>e. registered p (e\<lparr>callback := True\<rparr>))) cs rt"
proof (induction cs arbitrary: rt)
  case Nil
  then show ?case by simp
next
  case (Cons c cs)
  then show ?case by (simp add: register_policy)
qed

lemma updateEndpoints_loop_subset:
  "set (fst (updateEndpoints_loop h i es cs)) \<subseteq> set es \<and>
   set (snd (updateEndpoints_loop h i es cs)) \<subseteq> set cs"
proof (induction i arbitrary: es cs)
  case 0
  then show ?case by simp
next
  case (Suc i)
  show ?case
  proof (cases "findWhere h cs (url (h ! (es ! i)))")
    case None
    have "set (splice_1 es i) \<subseteq> set es"
      by (auto simp: splice_1_def dest: in_set_takeD in_set_dropD)
    with Suc.IH [of "splice_1 es i" cs] show ?thesis
      by (simp add: None) blast
  next
    case (Some m)
    have "set (without cs m) \<subseteq> set cs"
      by (auto simp: without_def)
    with Suc.IH [of es "without cs m"] show ?thesis
      by (simp add: Some) blast
  qed
qed

lemma updateEndpoints_frame:
  assumes "R = updateEndpoints (pool_of p es k) rt infos"
  shows "timers (snd R) = timers rt"
    and "next_timer_id (snd R) = next_timer_id rt"
    and "now (snd R) = now rt"
    and "length (heap (snd R)) = length (heap rt) + length infos"
    and "\<forall>a<length (heap rt). heap (snd R) ! a = heap rt ! a"
    and "endpointOffset (fst R) = k"
    and "set (endpoints (fst R)) \<subseteq> set es \<union> {length (heap rt) ..< length (heap rt) + length infos}"
proof -
  let ?n = "length (heap rt)"
  let ?rt1 = "rt\<lparr>heap := heap rt @ map new_Endpoint infos\<rparr>"
  let ?cs = "[?n ..< ?n + length infos]"
  let ?r = "updateEndpoints_loop (heap ?rt1) (length es) es ?cs"
  let ?f = "\<lambda>e. registered p (e\<lparr>callback := True\<rparr>)"
  have sub: "set (fst ?r) \<subseteq> set es" "set (snd ?r) \<subseteq> set ?cs"
    using updateEndpoints_loop_subset [of "heap ?rt1" "length es" es ?cs] by simp_all
  then have lt: "\<forall>c\<in>set (snd ?r). c < length (heap ?rt1)"
    by auto
  have "fold (\<lambda>endpoint rt. register (pool_of p es k) rt endpoint) (snd ?r) ?rt1 =
      fold (\<lambda>c rt. modify rt c ?f) (snd ?r) ?rt1"
    by (rule fold_register [OF lt])
  then have R: "R = (pool_of p (fst ?r @ snd ?r) k, fold (\<lambda>c rt. modify rt c ?f) (snd ?r) ?rt1)"
    by (simp add: assms updateEndpoints_def Let_def)
  show "timers (snd R) = timers rt" "next_timer_id (snd R) = next_timer_id rt"
    "now (snd R) = now rt" "length (heap (snd R)) = length (heap rt) + length infos"
    "endpointOffset (fst R) = k"
    by (simp_all add: R fold_modify_frame)
  show "\<forall>a<length (heap rt). heap (snd R) ! a = heap rt ! a"
  proof (intro allI impI)
    fix a assume a: "a < ?n"
    then have "a \<notin> set (snd ?r)" using sub(2) by auto
    then show "heap (snd R) ! a = heap rt ! a"
      using a by (simp add: R fold_modify_other nth_append)
  qed
  show "set (endpoints (fst R)) \<subseteq> set es \<union> {?n ..< ?n + length infos}"
    using sub by (auto simp: R)
qed


lemma updateEndpoints_loop_distinct:
  fixes h :: "Endpoint list"
  defines "U \<equiv> \<lambda>a. url (h ! a)"
  assumes "distinct (map U es)" "distinct (map U cs)" "i \<le> length es"
  shows "updateEndpoints_loop h i es cs =
    (filter (\<lambda>a. U a \<in> U ` set cs) (take i es) @ drop i es,
     filter (\<lambda>c. U c \<notin> U ` set (take i es)) cs)"
  using assms(2-)
proof (induction i arbitrary: es cs)
  case 0
  then show ?case by simp
next
  case (Suc i)
  let ?e = "es ! i"
  from Suc.prems have i: "i < length es" by simp
  have tk: "take (Suc i) es = take i es @ [?e]"
    using i by (simp add: take_Suc_conv_app_nth)
  have dr: "drop i es = ?e # drop (Suc i) es"
    using i by (simp add: Cons_nth_drop_Suc)
  have "map U es = map U (take i es) @ U ?e # map U (drop (Suc i) es)"
    using i by (subst id_take_nth_drop [OF i]) simp
  with Suc.prems(1) have fresh: "U ?e \<notin> U ` set (take i es)"
    by (metis distinct_append disjoint_iff list.set_intros(1) set_map)
  show ?case
  proof (cases "findWhere h cs (url (h ! ?e))")
    case None
    then have nomatch: "\<forall>c\<in>set cs. U c \<noteq> U ?e"
      by (auto simp: findWhere_def find_None_iff U_def)
    have d: "distinct (map U (splice_1 es i))"
      using Suc.prems(1) i
      by (subst (asm) id_take_nth_drop [OF i]) (auto simp: splice_1_def)
    have l: "i \<le> length (splice_1 es i)"
      using i by (simp add: splice_1_def)
    have t: "take i (splice_1 es i) = take i es" "drop i (splice_1 es i) = drop (Suc i) es"
      using i by (simp_all add: splice_1_def)
    have "updateEndpoints_loop h (Suc i) es cs = updateEndpoints_loop h i (splice_1 es i) cs"
      using None by simp
    also have "\<dots> = (filter (\<lambda>a. U a \<in> U ` set cs) (take i es) @ drop (Suc i) es,
        filter (\<lambda>c. U c \<notin> U ` set (take i es)) cs)"
      using Suc.IH [OF d Suc.prems(2) l] by (simp only: t)
    also have "filter (\<lambda>a. U a \<in> U ` set cs) (take i es) =
        filter (\<lambda>a. U a \<in> U ` set cs) (take (Suc i) es)"
      using nomatch by (auto simp: tk)
    also have "filter (\<lambda>c. U c \<notin> U ` set (take i es)) cs =
        filter (\<lambda>c. U c \<notin> U ` set (take (Suc i) es)) cs"
      using nomatch by (intro filter_cong) (auto simp: tk)
    finally show ?thesis .
  next
    case (Some m)
    then have m: "m \<in> set cs" "U m = U ?e"
      by (auto simp: findWhere_def find_Some_iff U_def)
    have inj: "inj_on U (set cs)"
      using Suc.prems(2) by (simp add: distinct_map)
    have wo: "without cs m = filter (\<lambda>c. U c \<noteq> U ?e) cs"
      unfolding without_def using m inj by (intro filter_cong) (auto simp: inj_on_def)
    have d: "distinct (map U (without cs m))"
      using Suc.prems(2) by (simp add: wo distinct_map_filter)
    have l: "i \<le> length es" using i by simp
    have "updateEndpoints_loop h (Suc i) es cs = updateEndpoints_loop h i es (without cs m)"
      using Some by simp
    also have "\<dots> = (filter (\<lambda>a. U a \<in> U ` set (without cs m)) (take i es) @ drop i es,
        filter (\<lambda>c. U c \<notin> U ` set (take i es)) (without cs m))"
      by (rule Suc.IH [OF Suc.prems(1) d l])
    also have "filter (\<lambda>a. U a \<in> U ` set (without cs m)) (take i es) =
        filter (\<lambda>a. U a \<in> U ` set cs) (take i es)"
    proof (intro filter_cong refl)
      fix a assume a: "a \<in> set (take i es)"
      then have "U a \<noteq> U ?e" using fresh by (metis image_eqI)
      moreover have "U ` set (without cs m) = U ` set cs - {U ?e}"
        by (auto simp: wo)
      ultimately show "(U a \<in> U ` set (without cs m)) = (U a \<in> U ` set cs)"
        by simp
    qed
    also have "filter (\<lambda>a. U a \<in> U ` set cs) (take i es) @ drop i es =
        filter (\<lambda>a. U a \<in> U ` set cs) (take (Suc i) es) @ drop (Suc i) es"
      using m by (simp add: tk dr) (metis image_eqI)
    also have "filter (\<lambda>c. U c \<notin> U ` set (take i es)) (without cs m) =
        filter (\<lambda>c. U c \<notin> U ` set (take (Suc i) es)) cs"
      by (auto simp: wo tk intro: filter_cong)
    finally show ?thesis .
  qed
qed

lemma updateEndpoints_distinct:
  assumes wf: "\<forall>a\<in>set es. a < length (heap rt)"
    and de: "distinct (map (\<lambda>a. url (heap rt ! a)) es)"
    and di: "distinct (map (\<lambda>i. url (new_Endpoint i)) infos)"
    and R: "R = updateEndpoints (pool_of p es k) rt infos"
  shows "endpoints (fst R) =
      filter (\<lambda>a. url (heap rt ! a) \<in> (\<lambda>i. url (new_Endpoint i)) ` set infos) es @
      map (\<lambda>j. length (heap rt) + j)
        (filter (\<lambda>j. url (new_Endpoint (infos ! j)) \<notin> (\<lambda>a. url (heap rt ! a)) ` set es)
           [0 ..< length infos])"
    and "\<forall>j<length infos.
      url (new_Endpoint (infos ! j)) \<notin> (\<lambda>a. url (heap rt ! a)) ` set es \<longrightarrow>
      heap (snd R) ! (length (heap rt) + j) =
        registered p ((new_Endpoint (infos ! j))\<lparr>callback := True\<rparr>)"
proof -
  let ?n = "length (heap rt)"
  let ?m = "length infos"
  let ?h = "heap rt @ map new_Endpoint infos"
  let ?rt1 = "rt\<lparr>heap := ?h\<rparr>"
  let ?cs = "[?n ..< ?n + ?m]"
  let ?U = "\<lambda>a. url (?h ! a)"
  let ?r = "updateEndpoints_loop ?h (length es) es ?cs"
  let ?f = "\<lambda>e. registered p (e\<lparr>callback := True\<rparr>)"
  let ?old = "(\<lambda>a. url (heap rt ! a)) ` set es"
  let ?new = "(\<lambda>i. url (new_Endpoint i)) ` set infos"
  have Ue: "?U a = url (heap rt ! a)" if "a \<in> set es" for a
    using wf that by (simp add: nth_append)
  have Uc: "?U (?n + j) = url (new_Endpoint (infos ! j))" if "j < ?m" for j
    using that by (simp add: nth_append)
  have cs: "?cs = map (\<lambda>j. ?n + j) [0 ..< ?m]"
    by (intro nth_equalityI) simp_all
  have mapUe: "map ?U es = map (\<lambda>a. url (heap rt ! a)) es"
    using Ue by (intro map_cong) simp_all
  have mapUc: "map ?U ?cs = map (\<lambda>i. url (new_Endpoint i)) infos"
    by (intro nth_equalityI) (simp_all add: nth_append)
  have imgE: "?U ` set es = ?old"
    using Ue by (intro image_cong) simp_all
  have imgC: "?U ` set ?cs = ?new"
    using arg_cong [OF mapUc, of set] by (simp only: set_map)
  have dE: "distinct (map ?U es)" using de by (simp only: mapUe)
  have dC: "distinct (map ?U ?cs)" using di by (simp only: mapUc)
  have r: "?r = (filter (\<lambda>a. ?U a \<in> ?U ` set ?cs) es, filter (\<lambda>c. ?U c \<notin> ?U ` set es) ?cs)"
    using updateEndpoints_loop_distinct [OF dE dC le_refl] by simp
  have kept: "fst ?r = filter (\<lambda>a. url (heap rt ! a) \<in> ?new) es"
    unfolding r fst_conv imgC using Ue by (intro filter_cong) simp_all
  have added: "snd ?r = map (\<lambda>j. ?n + j)
      (filter (\<lambda>j. url (new_Endpoint (infos ! j)) \<notin> ?old) [0 ..< ?m])"
    unfolding r snd_conv imgE
    by (subst cs, simp only: filter_map comp_def) (auto intro!: arg_cong [of _ _ "map _"] filter_cong simp: Uc)
  have sub: "set (snd ?r) \<subseteq> set ?cs"
    using updateEndpoints_loop_subset [of ?h "length es" es ?cs] by simp
  then have lt: "\<forall>c\<in>set (snd ?r). c < length (heap ?rt1)"
    by auto
  have "fold (\<lambda>endpoint rt. register (pool_of p es k) rt endpoint) (snd ?r) ?rt1 =
      fold (\<lambda>c rt. modify rt c ?f) (snd ?r) ?rt1"
    by (rule fold_register [OF lt])
  then have R': "R = (pool_of p (fst ?r @ snd ?r) k, fold (\<lambda>c rt. modify rt c ?f) (snd ?r) ?rt1)"
    by (simp add: R updateEndpoints_def Let_def)
  show "endpoints (fst R) = filter (\<lambda>a. url (heap rt ! a) \<in> ?new) es @
      map (\<lambda>j. ?n + j) (filter (\<lambda>j. url (new_Endpoint (infos ! j)) \<notin> ?old) [0 ..< ?m])"
    by (simp add: R' kept added)
  show "\<forall>j<?m. url (new_Endpoint (infos ! j)) \<notin> ?old \<longrightarrow>
      heap (snd R) ! (?n + j) = registered p ((new_Endpoint (infos ! j))\<lparr>callback := True\<rparr>)"
  proof (intro allI impI)
    fix j assume j: "j < ?m" and new: "url (new_Endpoint (infos ! j)) \<notin> ?old"
    have d: "distinct (snd ?r)"
      unfolding added by (simp add: distinct_map inj_on_def)
    have mem: "?n + j \<in> set (snd ?r)"
      unfolding added using j new by auto
    have "heap (snd R) ! (?n + j) = ?f (heap ?rt1 ! (?n + j))"
      unfolding R' snd_conv using j by (intro fold_modify_at [OF d mem]) simp
    then show "heap (snd R) ! (?n + j) =
        registered p ((new_Endpoint (infos ! j))\<lparr>callback := True\<rparr>)"
      using j by (simp add: nth_append)
  qed
qed

lemmas example_eval =
  pool_of_def new_PoolManager_def getRollingWindowConfiguration_def new_runtime_def
  updateEndpoints_def Let_def new_Endpoint_def string_of_nat.simps register_def modify_def
  rollingOnEndpointRegistered_def rollingOnEndpointReturned_def findWhere_def without_def
  splice_1_def upt_rec disableEndpoint_def setTimeout_def clearInterval_def timer_fires_def
  new_RingBuffer_def read_def write_rb_def array_get_def array_set_def js_mod_def

lemma example_rolling_pool_heap:
  "length (heap (snd example_rolling_pool)) = 3"
  "map url (heap (snd example_rolling_pool)) = [''a:80'', ''b:80'', ''c:80'']"
  by (simp_all add: example_rolling_pool_def example_eval)

text \<open>
  Claim C1 as stated fails when two endpoints of the collection have the same url: after
  a refresh that listed one descriptor twice, a refresh that lists it once removes the
  first of the two endpoints, although its url matches the incoming descriptor.
\<close>

theorem updateEndpoints_duplicates_counterexample:
  "endpoints (fst example_duplicate_pool) = [0, 1] \<and>
   url (heap (snd example_duplicate_pool) ! 0) = url (new_Endpoint \<lparr>name = ''a'', port = 80\<rparr>) \<and>
   endpoints (fst (updateEndpoints (fst example_duplicate_pool) (snd example_duplicate_pool)
     [\<lparr>name = ''a'', port = 80\<rparr>])) = [1]"
  by (simp add: example_duplicate_pool_def example_eval)

text \<open>
  Claim C4 as stated fails: the endpoint at address 1 is \<open>OPEN\<close> with a pending reopen
  timer when a refresh removes it from the collection; the timer is still scheduled
  after the refresh, and when it fires it sets the state of the removed endpoint to
  \<open>HALF_OPEN_READY\<close>.
\<close>

theorem updateEndpoints_timer_counterexample:
  "1 \<notin> set (endpoints (fst example_removed_pool)) \<and>
   state (heap (snd example_removed_pool) ! 1) = Some OPEN \<and>
   timers (snd example_removed_pool) = [\<lparr>timer_id = 0, due = 10000, target = 1\<rparr>] \<and>
   state (heap (snd (foldl step example_removed_pool [Elapse 10000, TimerFires 0])) ! 1) =
     Some HALF_OPEN_READY"
  by (simp add: example_removed_pool_def example_disabled_pool_def example_rolling_pool_def
      example_eval)

lemma find_distinct:
  "distinct (map f xs) \<Longrightarrow> x \<in> set xs \<Longrightarrow> find (\<lambda>y. f y = f x) xs = Some x"
  by (induction xs) (auto simp: rev_image_eqI)

lemma timer_fires_due:
  assumes "distinct (map timer_id (timers rt))" "t \<in> set (timers rt)" "due t \<le> now rt"
  shows "timer_fires rt (timer_id t) =
    modify (rt\<lparr>timers := filter (\<lambda>t'. timer_id t' \<noteq> timer_id t) (timers rt)\<rparr>) (target t)
      (\<lambda>e. e\<lparr>state := Some HALF_OPEN_READY\<rparr>)"
  using assms by (simp add: timer_fires_def find_distinct)


text \<open>
  Claim C1, as the code has it. When no two endpoints of the collection share a url and
  no two incoming descriptors share a url: the new collection is the existing endpoints
  whose url is among the descriptors', in their original order, followed by one new
  endpoint for each descriptor whose url no existing endpoint has, in the order of the
  descriptors; every object that existed before the call, so every surviving endpoint,
  is left exactly as it was (state, buffer, error count, timer handle), and no timer is
  touched; each new endpoint is the constructor's object with its callback bound and
  the registration hook of the policy applied.
\<close>

theorem updateEndpoints_reconciles:
  assumes "\<forall>a\<in>set es. a < length (heap rt)"
    and "distinct (map (\<lambda>a. url (heap rt ! a)) es)"
    and "distinct (map (\<lambda>i. url (new_Endpoint i)) infos)"
  shows
    "endpoints (fst (updateEndpoints (pool_of p es k) rt infos)) =
       filter (\<lambda>a. url (heap rt ! a) \<in> (\<lambda>i. url (new_Endpoint i)) ` set infos) es @
       map (\<lambda>j. length (heap rt) + j)
         (filter (\<lambda>j. url (new_Endpoint (infos ! j)) \<notin> (\<lambda>a. url (heap rt ! a)) ` set es)
            [0 ..< length infos]) \<and>
     (\<forall>a<length (heap rt).
        heap (snd (updateEndpoints (pool_of p es k) rt infos)) ! a = heap rt ! a) \<and>
     timers (snd (updateEndpoints (pool_of p es k) rt infos)) = timers rt \<and>
     (\<forall>j<length infos.
        url (new_Endpoint (infos ! j)) \<notin> (\<lambda>a. url (heap rt ! a)) ` set es \<longrightarrow>
        heap (snd (updateEndpoints (pool_of p es k) rt infos)) ! (length (heap rt) + j) =
          registered p ((new_Endpoint (infos ! j))\<lparr>callback := True\<rparr>)) \<and>
     (\<forall>rt' a. onEndpointRegistered (pool_of p es k) rt' a = modify rt' a (registered p))"
  using updateEndpoints_distinct [OF assms refl, where p = p and k = k]
    updateEndpoints_frame(1,5) [OF refl, where p = p and es = es and k = k and rt = rt
      and infos = infos]
  by (simp add: onEndpointRegistered_policy)

theorem updateEndpoints_reconciles_witness:
  "3 = length (heap (snd example_rolling_pool)) \<and>
   distinct (map (\<lambda>a. url (heap (snd example_rolling_pool) ! a)) [0, 1, 2]) \<and>
   distinct (map (\<lambda>i. url (new_Endpoint i))
     [\<lparr>name = ''c'', port = 80\<rparr>, \<lparr>name = ''d'', port = 80\<rparr>]) \<and>
   endpoints (fst (updateEndpoints (pool_of (RollingWindow 10000 2 10000) [0, 1, 2] 0)
     (snd example_rolling_pool)
     [\<lparr>name = ''c'', port = 80\<rparr>, \<lparr>name = ''d'', port = 80\<rparr>])) = [2, 4]"
proof -
  let ?rt = "snd example_rolling_pool"
  let ?infos = "[\<lparr>name = ''c'', port = 80\<rparr>, \<lparr>name = ''d'', port = 80\<rparr>]"
  have u: "url (heap ?rt ! 0) = ''a:80''" "url (heap ?rt ! 1) = ''b:80''"
    "url (heap ?rt ! 2) = ''c:80''"
    using example_rolling_pool_heap(2) by (simp_all add: list_eq_iff_nth_eq)
  have n: "url (new_Endpoint \<lparr>name = ''c'', port = 80\<rparr>) = ''c:80''"
    "url (new_Endpoint \<lparr>name = ''d'', port = 80\<rparr>) = ''d:80''"
    by (simp_all add: new_Endpoint_def string_of_nat.simps)
  have 1: "\<forall>a\<in>set [0, 1, 2]. a < length (heap ?rt)"
    by (simp add: example_rolling_pool_heap(1))
  have 2: "distinct (map (\<lambda>a. url (heap ?rt ! a)) [0, 1, 2])"
    using u by simp
  have 3: "distinct (map (\<lambda>i. url (new_Endpoint i)) ?infos)"
    using n by simp
  have "endpoints (fst (updateEndpoints (pool_of (RollingWindow 10000 2 10000) [0, 1, 2] 0)
      ?rt ?infos)) = [2, 4]"
    using updateEndpoints_reconciles [OF 1 2 3, where p = "RollingWindow 10000 2 10000"
        and k = 0, THEN conjunct1] u n
    by (simp add: example_rolling_pool_heap(1) upt_rec)
  with 2 3 show ?thesis by (simp add: example_rolling_pool_heap(1))
qed

text \<open>
  Claim C4, as the code has it. \<open>updateEndpoints\<close> cancels no timer: the timers
  scheduled before the call are the timers scheduled after it, and the endpoint a timer
  refers to, removed from the collection or not, is left as it was. When such a timer
  fires once it is due, it sets the state of its endpoint to \<open>HALF_OPEN_READY\<close> and
  changes no other endpoint.
\<close>

theorem updateEndpoints_keeps_timers:
  assumes "distinct (map timer_id (timers rt))" and "t \<in> set (timers rt)"
    and "target t < length (heap rt)" and "due t \<le> now'"
  shows
    "timers (snd (updateEndpoints (pool_of p es k) rt infos)) = timers rt \<and>
     heap (snd (updateEndpoints (pool_of p es k) rt infos)) ! target t = heap rt ! target t \<and>
     state (heap (timer_fires ((snd (updateEndpoints (pool_of p es k) rt infos))\<lparr>now := now'\<rparr>)
        (timer_id t)) ! target t) = Some HALF_OPEN_READY \<and>
     (\<forall>a. a \<noteq> target t \<longrightarrow>
        heap (timer_fires ((snd (updateEndpoints (pool_of p es k) rt infos))\<lparr>now := now'\<rparr>)
          (timer_id t)) ! a =
        heap (snd (updateEndpoints (pool_of p es k) rt infos)) ! a)"
proof -
  let ?rt = "snd (updateEndpoints (pool_of p es k) rt infos)"
  note fr = updateEndpoints_frame [OF refl, where p = p and es = es and k = k and rt = rt
      and infos = infos]
  have tm: "timers ?rt = timers rt" by (rule fr(1))
  have hp: "heap ?rt ! target t = heap rt ! target t"
    using fr(5) assms(3) by simp
  have len: "target t < length (heap ?rt)"
    using fr(4) assms(3) by simp
  have "timer_fires (?rt\<lparr>now := now'\<rparr>) (timer_id t) =
      modify (?rt\<lparr>now := now'\<rparr>\<lparr>timers := filter (\<lambda>t'. timer_id t' \<noteq> timer_id t)
        (timers (?rt\<lparr>now := now'\<rparr>))\<rparr>) (target t) (\<lambda>e. e\<lparr>state := Some HALF_OPEN_READY\<rparr>)"
    using assms by (intro timer_fires_due) (simp_all add: tm)
  then show ?thesis
    using tm hp len by simp
qed

theorem updateEndpoints_keeps_timers_witness:
  "distinct (map timer_id (timers (snd example_disabled_pool))) \<and>
   timers (snd example_disabled_pool) = [\<lparr>timer_id = 0, due = 10000, target = 1\<rparr>] \<and>
   1 < length (heap (snd example_disabled_pool)) \<and>
   fst example_disabled_pool = pool_of (RollingWindow 10000 2 10000) [0, 1, 2] 0 \<and>
   endpoints (fst example_removed_pool) = [0, 2] \<and>
   timers (snd example_removed_pool) = [\<lparr>timer_id = 0, due = 10000, target = 1\<rparr>] \<and>
   state (heap (snd example_removed_pool) ! 1) = Some OPEN \<and>
   state (heap (timer_fires ((snd example_removed_pool)\<lparr>now := 10000\<rparr>) 0) ! 1) =
     Some HALF_OPEN_READY"
proof -
  let ?t = "\<lparr>timer_id = 0, due = 10000, target = 1\<rparr>"
  let ?infos = "[\<lparr>name = ''a'', port = 80\<rparr>, \<lparr>name = ''c'', port = 80\<rparr>]"
  have pm: "fst example_disabled_pool = pool_of (RollingWindow 10000 2 10000) [0, 1, 2] 0"
    and tm: "timers (snd example_disabled_pool) = [?t]"
    and len: "length (heap (snd example_disabled_pool)) = 3"
    and st: "state (heap (snd example_disabled_pool) ! 1) = Some OPEN"
    by (simp_all add: example_disabled_pool_def example_rolling_pool_def example_eval)
  have es: "endpoints (fst example_removed_pool) = [0, 2]"
    by (simp add: example_removed_pool_def example_disabled_pool_def
        example_rolling_pool_def example_eval)
  have rm: "example_removed_pool =
      updateEndpoints (pool_of (RollingWindow 10000 2 10000) [0, 1, 2] 0)
        (snd example_disabled_pool) ?infos"
  proof -
    have "step s (UpdateEndpoints i) = updateEndpoints (fst s) (snd s) i" for s i
      by (cases s) simp
    then show ?thesis by (simp only: example_removed_pool_def pm)
  qed
  have 1: "distinct (map timer_id (timers (snd example_disabled_pool)))"
    and 2: "?t \<in> set (timers (snd example_disabled_pool))"
    and 3: "target ?t < length (heap (snd example_disabled_pool))"
    and 4: "due ?t \<le> 10000"
    by (simp_all add: tm len)
  have "timers (snd example_removed_pool) = [?t] \<and>
      state (heap (snd example_removed_pool) ! 1) = Some OPEN \<and>
      state (heap (timer_fires ((snd example_removed_pool)\<lparr>now := 10000\<rparr>) 0) ! 1) =
        Some HALF_OPEN_READY"
    unfolding rm
    using updateEndpoints_keeps_timers [OF 1 2 3 4, where p = "RollingWindow 10000 2 10000"
      and es = "[0, 1, 2]" and k = 0 and infos = ?infos] tm st
    by simp
  with pm es 1 tm len show ?thesis by simp
qed

section \<open>Timers and endpoint states along a run\<close>

lemma timers_okD:
  assumes "timers_ok rt" "t \<in> set (timers rt)"
  shows "timer_id t < next_timer_id rt" "target t < length (heap rt)"
    "reopenTimeout (heap rt ! target t) = Some (timer_id t)"
    "state (heap rt ! target t) = Some OPEN"
  using assms by (auto simp: timers_ok_def list_all_iff)

lemma timers_okI:
  assumes "distinct (map timer_id (timers rt))"
    and "\<And>t. t \<in> set (timers rt) \<Longrightarrow>
      timer_id t < next_timer_id rt \<and> target t < length (heap rt) \<and>
      reopenTimeout (heap rt ! target t) = Some (timer_id t) \<and>
      state (heap rt ! target t) = Some OPEN"
  shows "timers_ok rt"
  using assms by (simp add: timers_ok_def list_all_iff)

lemma timers_ok_heap_update:
  assumes ok: "timers_ok rt"
    and e: "\<And>t. t \<in> set (timers rt) \<Longrightarrow> target t = a \<Longrightarrow>
      reopenTimeout e' = Some (timer_id t) \<and> state e' = Some OPEN"
  shows "timers_ok (rt\<lparr>heap := (heap rt)[a := e']\<rparr>)"
proof (rule timers_okI)
  show "distinct (map timer_id (timers (rt\<lparr>heap := (heap rt)[a := e']\<rparr>)))"
    using ok by (simp add: timers_ok_def)
next
  fix t assume "t \<in> set (timers (rt\<lparr>heap := (heap rt)[a := e']\<rparr>))"
  then have t: "t \<in> set (timers rt)" by simp
  note d = timers_okD [OF ok t]
  show "timer_id t < next_timer_id (rt\<lparr>heap := (heap rt)[a := e']\<rparr>) \<and>
      target t < length (heap (rt\<lparr>heap := (heap rt)[a := e']\<rparr>)) \<and>
      reopenTimeout (heap (rt\<lparr>heap := (heap rt)[a := e']\<rparr>) ! target t) = Some (timer_id t) \<and>
      state (heap (rt\<lparr>heap := (heap rt)[a := e']\<rparr>) ! target t) = Some OPEN"
  proof (cases "target t = a")
    case True
    then show ?thesis using d e [OF t True] by simp
  next
    case False
    then show ?thesis using d by simp
  qed
qed

lemma timers_ok_modify_same:
  assumes "timers_ok rt"
    and "state (f (heap rt ! a)) = state (heap rt ! a)"
    and "reopenTimeout (f (heap rt ! a)) = reopenTimeout (heap rt ! a)"
  shows "timers_ok (modify rt a f)"
  unfolding modify_def
  using assms(2,3) timers_okD(3,4) [OF assms(1)]
  by (intro timers_ok_heap_update [OF assms(1)]) auto

lemma timers_ok_modify_not_OPEN:
  assumes "timers_ok rt" and "state (heap rt ! a) \<noteq> Some OPEN"
  shows "timers_ok (modify rt a f)"
  unfolding modify_def
  using assms(2) timers_okD(4) [OF assms(1)]
  by (intro timers_ok_heap_update [OF assms(1)]) auto

lemma timers_ok_disableEndpoint:
  assumes ok: "timers_ok rt" and a: "a < length (heap rt)"
  shows "timers_ok (disableEndpoint r rt a)"
proof (cases "state (heap rt ! a) = Some OPEN")
  case True
  then show ?thesis using ok by (simp add: disableEndpoint_OPEN)
next
  case False
  let ?e = "(heap rt ! a)\<lparr>state := Some OPEN, reopenTimeout := Some (next_timer_id rt)\<rparr>"
  let ?new = "\<lparr>timer_id = next_timer_id rt, due = now rt + int r, target = a\<rparr>"
  let ?old = "filter (\<lambda>t. Some (timer_id t) \<noteq> reopenTimeout (heap rt ! a)) (timers rt)"
  have eq: "disableEndpoint r rt a =
      rt\<lparr>heap := (heap rt)[a := ?e], timers := ?old @ [?new],
         next_timer_id := Suc (next_timer_id rt)\<rparr>"
    by (rule disableEndpoint_not_OPEN [OF a False])
  have notarget: "target t \<noteq> a" if "t \<in> set (timers rt)" for t
    using timers_okD(4) [OF ok that] False by auto
  have lt: "timer_id t < next_timer_id rt" if "t \<in> set (timers rt)" for t
    using timers_okD(1) [OF ok that] .
  show ?thesis
  proof (rule timers_okI)
    have "distinct (map timer_id (timers rt))" using ok by (simp add: timers_ok_def)
    then have "distinct (map timer_id ?old)" by (rule distinct_map_filter)
    moreover have "next_timer_id rt \<notin> timer_id ` set ?old"
    proof
      assume "next_timer_id rt \<in> timer_id ` set ?old"
      then obtain t where "t \<in> set (timers rt)" "timer_id t = next_timer_id rt"
        by auto
      with lt [of t] show False by simp
    qed
    ultimately show "distinct (map timer_id (timers (disableEndpoint r rt a)))"
      by (simp add: eq)
  next
    fix t assume "t \<in> set (timers (disableEndpoint r rt a))"
    then consider "t \<in> set (timers rt)" | "t = ?new"
      by (auto simp: eq)
    then show "timer_id t < next_timer_id (disableEndpoint r rt a) \<and>
        target t < length (heap (disableEndpoint r rt a)) \<and>
        reopenTimeout (heap (disableEndpoint r rt a) ! target t) = Some (timer_id t) \<and>
        state (heap (disableEndpoint r rt a) ! target t) = Some OPEN"
    proof cases
      case 1
      then show ?thesis
        using timers_okD [OF ok 1] notarget [OF 1] by (simp add: eq)
    next
      case 2
      then show ?thesis using a by (simp add: eq)
    qed
  qed
qed

lemma timers_ok_timer_fires:
  assumes ok: "timers_ok rt"
  shows "timers_ok (timer_fires rt i)"
proof (cases "find (\<lambda>t. timer_id t = i) (timers rt)")
  case None
  then show ?thesis using ok by (simp add: timer_fires_def)
next
  case (Some t)
  then have t: "t \<in> set (timers rt)" "timer_id t = i"
    by (auto simp: find_Some_iff)
  let ?rest = "filter (\<lambda>t. timer_id t \<noteq> i) (timers rt)"
  let ?rt = "rt\<lparr>timers := ?rest\<rparr>"
  have other: "target t' \<noteq> target t" if "t' \<in> set ?rest" for t'
  proof
    assume "target t' = target t"
    moreover have "t' \<in> set (timers rt)" "timer_id t' \<noteq> i" using that by auto
    ultimately show False
      using timers_okD(3) [OF ok \<open>t' \<in> set (timers rt)\<close>] timers_okD(3) [OF ok t(1)] t(2)
      by simp
  qed
  have ok': "timers_ok ?rt"
  proof (rule timers_okI)
    show "distinct (map timer_id (timers ?rt))"
      using ok by (simp add: timers_ok_def distinct_map_filter)
  next
    fix t' assume "t' \<in> set (timers ?rt)"
    then have "t' \<in> set (timers rt)" by simp
    from timers_okD [OF ok this]
    show "timer_id t' < next_timer_id ?rt \<and> target t' < length (heap ?rt) \<and>
        reopenTimeout (heap ?rt ! target t') = Some (timer_id t') \<and>
        state (heap ?rt ! target t') = Some OPEN"
      by simp
  qed
  show ?thesis
  proof (cases "due t \<le> now rt")
    case False
    then show ?thesis using ok by (simp add: timer_fires_def Some)
  next
    case True
    have "timers_ok (?rt\<lparr>heap := (heap ?rt)[target t :=
        (heap ?rt ! target t)\<lparr>state := Some HALF_OPEN_READY\<rparr>]\<rparr>)"
      using other by (intro timers_ok_heap_update [OF ok']) auto
    then show ?thesis
      using True by (simp add: timer_fires_def Some modify_def)
  qed
qed

lemma timers_ok_at_most_one:
  assumes ok: "timers_ok rt"
  shows "length (filter (\<lambda>t. target t = a) (timers rt)) \<le> 1"
proof -
  let ?ts = "filter (\<lambda>t. target t = a) (timers rt)"
  have d: "distinct (map timer_id ?ts)"
    using ok by (simp add: timers_ok_def distinct_map_filter)
  have same: "timer_id t = timer_id t'" if "t \<in> set ?ts" "t' \<in> set ?ts" for t t'
  proof -
    have "t \<in> set (timers rt)" "t' \<in> set (timers rt)" "target t = a" "target t' = a"
      using that by auto
    then show ?thesis
      using timers_okD(3) [OF ok, of t] timers_okD(3) [OF ok, of t'] by simp
  qed
  show ?thesis
  proof (cases ?ts)
    case Nil
    then show ?thesis by simp
  next
    case (Cons t ts)
    have "ts = []"
    proof (cases ts)
      case Nil
      then show ?thesis .
    next
      case (Cons t' ts')
      then have "timer_id t = timer_id t'"
        using same [of t t'] \<open>?ts = t # ts\<close> by simp
      then show ?thesis
        using d \<open>?ts = t # ts\<close> Cons by simp
    qed
    then show ?thesis using Cons by simp
  qed
qed

lemma returned_timers_ok:
  assumes ok: "timers_ok rt" and a: "a < length (heap rt)"
    and r: "onEndpointReturned (poolConfig p) rt a err = Inr rt'"
  shows "timers_ok rt'"
proof (cases p)
  case NoPolicy
  then show ?thesis using ok r by (simp add: defaultOptions_def)
next
  case (RollingWindow fw mf rs)
  let ?rt1 = "modify rt a (\<lambda>e. e\<lparr>buffer := Some (write_rb (the (buffer (heap rt ! a))) (now rt))\<rparr>)"
  have ok1: "timers_ok ?rt1"
    using a by (intro timers_ok_modify_same [OF ok]) simp_all
  have 1: "timers_ok (disableEndpoint rs rt a)"
    by (rule timers_ok_disableEndpoint [OF ok a])
  have 2: "timers_ok (disableEndpoint rs ?rt1 a)"
    using a by (intro timers_ok_disableEndpoint [OF ok1]) simp
  have 3: "state (heap rt ! a) = Some HALF_OPEN_PENDING \<Longrightarrow>
      timers_ok (modify rt a (\<lambda>e. e\<lparr>state := Some CLOSED\<rparr>))"
    by (intro timers_ok_modify_not_OPEN [OF ok]) simp
  show ?thesis
    using r ok ok1 1 2 3 a
    by (auto simp: RollingWindow getRollingWindowConfiguration_def
        rollingOnEndpointReturned_def Let_def split: if_splits option.splits)
next
  case (Rate fr frw rs)
  show ?thesis
  proof (cases "buffer (heap rt ! a)")
    case None
    then show ?thesis
      using r by (simp add: Rate getRateConfiguration_def rateOnEndpointReturned_def)
  next
    case (Some b)
    let ?new = "if err then 1 else 0 :: int"
    let ?old = "if truthy (read b) then 1 else 0 :: int"
    let ?rt1 = "modify rt a (\<lambda>e. e\<lparr>buffer := Some (write_rb b ?new)\<rparr>)"
    let ?rt2 = "modify ?rt1 a (\<lambda>e. e\<lparr>errors := map_option (\<lambda>n. n + (?new - ?old)) (errors e)\<rparr>)"
    have ok1: "timers_ok ?rt1"
      using a by (intro timers_ok_modify_same [OF ok]) simp_all
    have ok2: "timers_ok ?rt2"
      using a by (intro timers_ok_modify_same [OF ok1]) simp_all
    have a2: "a < length (heap ?rt2)" using a by simp
    have st: "state (heap ?rt2 ! a) = state (heap rt ! a)" using a by simp
    have 1: "timers_ok (disableEndpoint rs ?rt2 a)"
      by (rule timers_ok_disableEndpoint [OF ok2 a2])
    have 2: "state (heap rt ! a) = Some HALF_OPEN_PENDING \<Longrightarrow>
        timers_ok (modify ?rt2 a (\<lambda>e. e\<lparr>state := Some CLOSED\<rparr>))"
      using st by (intro timers_ok_modify_not_OPEN [OF ok2]) simp
    have "rt' = disableEndpoint rs ?rt2 a \<or>
        (state (heap rt ! a) = Some HALF_OPEN_PENDING \<and>
         rt' = modify ?rt2 a (\<lambda>e. e\<lparr>state := Some CLOSED\<rparr>)) \<or> rt' = ?rt2"
      using r
      by (simp add: Rate getRateConfiguration_def rateOnEndpointReturned_def Some Let_def
          split: if_splits)
    then show ?thesis using 1 2 ok2 by blast
  qed
qed

lemma selected_timers_ok:
  assumes ok: "timers_ok rt"
  shows "timers_ok (modify rt a (selected p))"
proof (cases "p \<noteq> NoPolicy \<and> state (heap rt ! a) = Some HALF_OPEN_READY")
  case True
  then show ?thesis by (intro timers_ok_modify_not_OPEN [OF ok]) simp
next
  case False
  then have "selected p (heap rt ! a) = heap rt ! a"
    by (cases p) auto
  then show ?thesis by (intro timers_ok_modify_same [OF ok]) simp_all
qed

lemma getNextEndpoint_result:
  "\<exists>k'. getNextEndpoint (pool_of p es k) rt = (None, pool_of p es k', rt) \<or>
     (\<exists>a. usable p (heap rt ! a) \<and>
        getNextEndpoint (pool_of p es k) rt =
          (Some a, pool_of p es k', modify rt a (selected p)))"
proof (cases "find (\<lambda>offset. usable p (heap rt ! (es ! offset)))
    (map (\<lambda>i. (k + i) mod length es) [0 ..< length es])")
  case None
  then show ?thesis
    by (auto simp: getNextEndpoint_def getNextEndpoint_loop_find)
next
  case (Some offset)
  then have "usable p (heap rt ! (es ! offset))"
    by (auto simp: find_Some_iff)
  then show ?thesis
    using Some by (auto simp: getNextEndpoint_def getNextEndpoint_loop_find)
qed

lemma updateEndpoints_timers_ok:
  assumes ok: "timers_ok rt"
  shows "timers_ok (snd (updateEndpoints (pool_of p es k) rt infos))"
proof -
  note fr = updateEndpoints_frame [OF refl, where p = p and es = es and k = k and rt = rt
      and infos = infos]
  show ?thesis
  proof (rule timers_okI)
    show "distinct (map timer_id (timers (snd (updateEndpoints (pool_of p es k) rt infos))))"
      using ok by (simp add: fr(1) timers_ok_def)
  next
    fix t assume "t \<in> set (timers (snd (updateEndpoints (pool_of p es k) rt infos)))"
    then have t: "t \<in> set (timers rt)" by (simp add: fr(1))
    from timers_okD [OF ok t] fr(5)
    show "timer_id t < next_timer_id (snd (updateEndpoints (pool_of p es k) rt infos)) \<and>
        target t < length (heap (snd (updateEndpoints (pool_of p es k) rt infos))) \<and>
        reopenTimeout (heap (snd (updateEndpoints (pool_of p es k) rt infos)) ! target t) =
          Some (timer_id t) \<and>
        state (heap (snd (updateEndpoints (pool_of p es k) rt infos)) ! target t) = Some OPEN"
      by (simp add: fr(2,4))
  qed
qed

lemma updateEndpoints_pool:
  "\<exists>es'. fst (updateEndpoints (pool_of p es k) rt infos) = pool_of p es' k"
  by (auto simp: updateEndpoints_def Let_def)

lemma step_timers_ok:
  assumes ok: "timers_ok rt"
  shows "\<exists>es' k' rt'. step (pool_of p es k, rt) ev = (pool_of p es' k', rt') \<and> timers_ok rt'"
proof (cases ev)
  case (UpdateEndpoints infos)
  obtain es' where "fst (updateEndpoints (pool_of p es k) rt infos) = pool_of p es' k"
    using updateEndpoints_pool by blast
  then have "updateEndpoints (pool_of p es k) rt infos =
      (pool_of p es' k, snd (updateEndpoints (pool_of p es k) rt infos))"
    by (metis prod.collapse)
  then show ?thesis
    using updateEndpoints_timers_ok [OF ok, of p es k infos] UpdateEndpoints by auto
next
  case GetNextEndpoint
  from getNextEndpoint_result [of p es k rt]
  obtain k' x rt' where g: "getNextEndpoint (pool_of p es k) rt = (x, pool_of p es k', rt')"
    and "rt' = rt \<or> (\<exists>a. rt' = modify rt a (selected p))"
    by blast
  then have "timers_ok rt'"
    using ok selected_timers_ok [OF ok, of _ p] by auto
  then show ?thesis
    by (intro exI [of _ es] exI [of _ k'] exI [of _ rt']) (simp add: GetNextEndpoint g)
next
  case GetStatus
  then show ?thesis using ok by (auto simp: getStatus_def getStatus_fold)
next
  case (Callback a err)
  show ?thesis
  proof (cases "onEndpointReturned (poolConfig p) rt a err")
    case (Inl e)
    then show ?thesis using ok by (auto simp: Callback)
  next
    case (Inr rt')
    show ?thesis
    proof (cases "a < length (heap rt) \<and> callback (heap rt ! a)")
      case True
      then have "timers_ok rt'" using returned_timers_ok [OF ok _ Inr] by simp
      then show ?thesis using True Inr by (auto simp: Callback)
    next
      case False
      then show ?thesis using ok by (auto simp: Callback)
    qed
  qed
next
  case (TimerFires i)
  then show ?thesis using timers_ok_timer_fires [OF ok, of i] by auto
next
  case (Elapse d)
  have "timers_ok (rt\<lparr>now := now rt + int d\<rparr>)"
    using ok by (simp add: timers_ok_def)
  then show ?thesis by (auto simp: Elapse)
qed

lemma foldl_step_timers_ok:
  "timers_ok rt \<Longrightarrow>
   \<exists>es' k' rt'. foldl step (pool_of p es k, rt) evs = (pool_of p es' k', rt') \<and> timers_ok rt'"
proof (induction evs arbitrary: es k rt)
  case Nil
  then show ?case by auto
next
  case (Cons ev evs)
  from step_timers_ok [OF Cons.prems, of p es k ev]
  obtain es' k' rt' where "step (pool_of p es k, rt) ev = (pool_of p es' k', rt')"
    and "timers_ok rt'" by blast
  then show ?case using Cons.IH [of rt' es' k'] by simp
qed

lemma run_timers_ok:
  "\<exists>es k rt. run (new_PoolManager (poolConfig p)) t evs = (pool_of p es k, rt) \<and> timers_ok rt"
proof -
  have "timers_ok (new_runtime t)"
    by (simp add: timers_ok_def new_runtime_def)
  moreover have "new_PoolManager (poolConfig p) = pool_of p [] 0"
    by (simp add: pool_of_def new_PoolManager_def)
  ultimately show ?thesis
    using foldl_step_timers_ok [of "new_runtime t" p "[]" 0 evs] by (simp add: run_def)
qed

text \<open>
  Claim C8. Disabling an endpoint that is \<open>OPEN\<close> changes nothing, so disabling twice is
  disabling once. Disabling an endpoint that is not \<open>OPEN\<close> removes the timer whose
  handle the endpoint holds, if it is still scheduled, and then schedules one new timer,
  due \<open>resetTimeout\<close> from now, whose handle the endpoint holds from then on. In every
  state that a pool reaches from its construction, whatever the policy and the events,
  at most one scheduled timer refers to any one endpoint.
\<close>

theorem disableEndpoint_idempotent:
  "(state (heap rt ! a) = Some OPEN \<longrightarrow> disableEndpoint r rt a = rt) \<and>
   (a < length (heap rt) \<longrightarrow>
      disableEndpoint r (disableEndpoint r rt a) a = disableEndpoint r rt a) \<and>
   (a < length (heap rt) \<and> state (heap rt ! a) \<noteq> Some OPEN \<longrightarrow>
      timers (disableEndpoint r rt a) =
        filter (\<lambda>t. Some (timer_id t) \<noteq> reopenTimeout (heap rt ! a)) (timers rt) @
        [\<lparr>timer_id = next_timer_id rt, due = now rt + int r, target = a\<rparr>] \<and>
      state (heap (disableEndpoint r rt a) ! a) = Some OPEN \<and>
      reopenTimeout (heap (disableEndpoint r rt a) ! a) = Some (next_timer_id rt)) \<and>
   length (filter (\<lambda>t. target t = b)
     (timers (snd (run (new_PoolManager (poolConfig p)) t0 evs)))) \<le> 1"
proof -
  obtain es k rt' where "run (new_PoolManager (poolConfig p)) t0 evs = (pool_of p es k, rt')"
    and "timers_ok rt'"
    using run_timers_ok by blast
  then have "length (filter (\<lambda>t. target t = b)
     (timers (snd (run (new_PoolManager (poolConfig p)) t0 evs)))) \<le> 1"
    using timers_ok_at_most_one [of rt' b] by simp
  moreover have "a < length (heap rt) \<and> state (heap rt ! a) \<noteq> Some OPEN \<longrightarrow>
      timers (disableEndpoint r rt a) =
        filter (\<lambda>t. Some (timer_id t) \<noteq> reopenTimeout (heap rt ! a)) (timers rt) @
        [\<lparr>timer_id = next_timer_id rt, due = now rt + int r, target = a\<rparr>] \<and>
      state (heap (disableEndpoint r rt a) ! a) = Some OPEN \<and>
      reopenTimeout (heap (disableEndpoint r rt a) ! a) = Some (next_timer_id rt)"
    by (simp add: disableEndpoint_not_OPEN)
  ultimately show ?thesis
    using disableEndpoint_OPEN [of rt a r] disableEndpoint_idem [of a rt r] by blast
qed

theorem disableEndpoint_idempotent_witness:
  "0 < length (heap example_rolling_runtime) \<and>
   state (heap example_rolling_runtime ! 0) \<noteq> Some OPEN \<and>
   timers (disableEndpoint 10000 example_rolling_runtime 0) =
     [\<lparr>timer_id = 0, due = 10005, target = 0\<rparr>] \<and>
   disableEndpoint 10000 (disableEndpoint 10000 example_rolling_runtime 0) 0 =
     disableEndpoint 10000 example_rolling_runtime 0 \<and>
   length (filter (\<lambda>t. target t = 1) (timers (snd example_removed_pool))) \<le> 1"
proof -
  have a: "0 < length (heap example_rolling_runtime)"
    and s: "state (heap example_rolling_runtime ! 0) \<noteq> Some OPEN"
    and v: "reopenTimeout (heap example_rolling_runtime ! 0) = None"
      "timers example_rolling_runtime = []" "next_timer_id example_rolling_runtime = 0"
      "now example_rolling_runtime = 5"
    by (simp_all add: example_rolling_runtime_def)
  note t = disableEndpoint_idempotent [where rt = example_rolling_runtime and a = 0
      and r = 10000 and b = 1 and p = "RollingWindow 10000 2 10000" and ?t0.0 = 0 and evs =
      "[UpdateEndpoints [\<lparr>name = ''a'', port = 80\<rparr>, \<lparr>name = ''b'', port = 80\<rparr>,
          \<lparr>name = ''c'', port = 80\<rparr>],
        Callback 1 True, Callback 1 True,
        UpdateEndpoints [\<lparr>name = ''a'', port = 80\<rparr>, \<lparr>name = ''c'', port = 80\<rparr>]]"]
  have r: "run (new_PoolManager (poolConfig (RollingWindow 10000 2 10000))) 0
      [UpdateEndpoints [\<lparr>name = ''a'', port = 80\<rparr>, \<lparr>name = ''b'', port = 80\<rparr>,
          \<lparr>name = ''c'', port = 80\<rparr>],
        Callback 1 True, Callback 1 True,
        UpdateEndpoints [\<lparr>name = ''a'', port = 80\<rparr>, \<lparr>name = ''c'', port = 80\<rparr>]] =
      example_removed_pool"
    by (simp add: run_def example_removed_pool_def example_disabled_pool_def
        example_rolling_pool_def)
  have "timers (disableEndpoint 10000 example_rolling_runtime 0) =
      [\<lparr>timer_id = 0, due = 10005, target = 0\<rparr>]"
    using t [THEN conjunct2, THEN conjunct2, THEN conjunct1] a s by (simp add: v)
  moreover have "disableEndpoint 10000 (disableEndpoint 10000 example_rolling_runtime 0) 0 =
      disableEndpoint 10000 example_rolling_runtime 0"
    using t [THEN conjunct2, THEN conjunct1] a by simp
  moreover have "length (filter (\<lambda>t. target t = 1) (timers (snd example_removed_pool))) \<le> 1"
    using t [THEN conjunct2, THEN conjunct2, THEN conjunct2] by (simp only: r)
  ultimately show ?thesis using a s by simp
qed

lemma getNextEndpoint_Some:
  assumes "getNextEndpoint (pool_of p es k) rt = (Some a, pm', rt')"
  shows "usable p (heap rt ! a)" and "rt' = modify rt a (selected p)"
  using getNextEndpoint_result [of p es k rt] assms by auto

lemma returned_other:
  assumes r: "onEndpointReturned (poolConfig p) rt a' err = Inr rt'"
  shows "length (heap rt') = length (heap rt)"
    and "a \<noteq> a' \<Longrightarrow> heap rt' ! a = heap rt ! a"
proof -
  have "length (heap rt') = length (heap rt) \<and> (a \<noteq> a' \<longrightarrow> heap rt' ! a = heap rt ! a)"
  proof (cases p)
    case NoPolicy
    then show ?thesis using r by (simp add: defaultOptions_def)
  next
    case (RollingWindow fw mf rs)
    then show ?thesis
      using r
      by (auto simp: getRollingWindowConfiguration_def rollingOnEndpointReturned_def Let_def
          disableEndpoint_other split: if_splits option.splits)
  next
    case (Rate fr frw rs)
    then show ?thesis
      using r
      by (auto simp: getRateConfiguration_def rateOnEndpointReturned_def Let_def
          disableEndpoint_other split: if_splits option.splits)
  qed
  then show "length (heap rt') = length (heap rt)"
    and "a \<noteq> a' \<Longrightarrow> heap rt' ! a = heap rt ! a"
    by simp_all
qed

lemma timer_fires_other:
  assumes "\<forall>t\<in>set (timers rt). target t \<noteq> a"
  shows "heap (timer_fires rt i) ! a = heap rt ! a"
proof (cases "find (\<lambda>t. timer_id t = i) (timers rt)")
  case None
  then show ?thesis by (simp add: timer_fires_def)
next
  case (Some t)
  then have "t \<in> set (timers rt)" by (auto simp: find_Some_iff)
  then have "target t \<noteq> a" using assms by simp
  then show ?thesis by (simp add: timer_fires_def Some)
qed

lemma timer_fires_length [simp]: "length (heap (timer_fires rt i)) = length (heap rt)"
  by (simp add: timer_fires_def split: option.splits)

lemma step_keeps_pending:
  assumes ok: "timers_ok rt" and a: "a < length (heap rt)"
    and s: "state (heap rt ! a) = Some HALF_OPEN_PENDING"
    and ev: "\<forall>err. ev \<noteq> Callback a err"
  shows "a < length (heap (snd (step (pool_of p es k, rt) ev))) \<and>
    state (heap (snd (step (pool_of p es k, rt) ev)) ! a) = Some HALF_OPEN_PENDING"
proof (cases ev)
  case (UpdateEndpoints infos)
  note fr = updateEndpoints_frame [OF refl, where p = p and es = es and k = k and rt = rt
      and infos = infos]
  show ?thesis using fr(4,5) a s by (simp add: UpdateEndpoints)
next
  case GetNextEndpoint
  from getNextEndpoint_result [of p es k rt]
  obtain k' x rt' where g: "getNextEndpoint (pool_of p es k) rt = (x, pool_of p es k', rt')"
    and c: "rt' = rt \<or> (\<exists>b. usable p (heap rt ! b) \<and> rt' = modify rt b (selected p))"
    by blast
  have "a < length (heap rt') \<and> state (heap rt' ! a) = Some HALF_OPEN_PENDING"
    using c
  proof
    assume "rt' = rt"
    then show ?thesis using a s by simp
  next
    assume "\<exists>b. usable p (heap rt ! b) \<and> rt' = modify rt b (selected p)"
    then obtain b where b: "usable p (heap rt ! b)" "rt' = modify rt b (selected p)"
      by blast
    show ?thesis
    proof (cases "b = a")
      case True
      then have "p = NoPolicy" using b(1) s by (cases p) auto
      then show ?thesis using a s b(2) True by simp
    next
      case False
      then show ?thesis using a s b(2) by simp
    qed
  qed
  then show ?thesis by (simp add: GetNextEndpoint g)
next
  case GetStatus
  then show ?thesis using a s by (simp add: getStatus_def getStatus_fold)
next
  case (Callback a' err)
  then have ne: "a \<noteq> a'" using ev by auto
  show ?thesis
  proof (cases "onEndpointReturned (poolConfig p) rt a' err")
    case (Inl e)
    then show ?thesis using a s by (simp add: Callback)
  next
    case (Inr rt')
    from returned_other [OF Inr] ne a s show ?thesis
      by (simp add: Callback Inr)
  qed
next
  case (TimerFires i)
  have "\<forall>t\<in>set (timers rt). target t \<noteq> a"
    using timers_okD(4) [OF ok] s by auto
  from timer_fires_other [OF this] a s show ?thesis
    by (simp add: TimerFires)
next
  case (Elapse d)
  then show ?thesis using a s by simp
qed

lemma foldl_step_keeps_pending:
  assumes "timers_ok rt" "a < length (heap rt)"
    and "state (heap rt ! a) = Some HALF_OPEN_PENDING"
    and "\<forall>err. Callback a err \<notin> set evs"
  shows "\<exists>es' k' rt'. foldl step (pool_of p es k, rt) evs = (pool_of p es' k', rt') \<and>
    timers_ok rt' \<and> a < length (heap rt') \<and>
    state (heap rt' ! a) = Some HALF_OPEN_PENDING"
  using assms
proof (induction evs arbitrary: es k rt)
  case Nil
  then show ?case by auto
next
  case (Cons ev evs)
  from step_timers_ok [OF Cons.prems(1), of p es k ev]
  obtain es' k' rt' where st: "step (pool_of p es k, rt) ev = (pool_of p es' k', rt')"
    and ok': "timers_ok rt'" by blast
  have "\<forall>err. ev \<noteq> Callback a err" using Cons.prems(4) by auto
  from step_keeps_pending [OF Cons.prems(1-3) this, of p es k]
  have "a < length (heap rt')" "state (heap rt' ! a) = Some HALF_OPEN_PENDING"
    by (simp_all add: st)
  moreover have "\<forall>err. Callback a err \<notin> set evs" using Cons.prems(4) by auto
  ultimately show ?case
    using Cons.IH [OF ok', of es' k'] by (simp add: st)
qed

text \<open>
  Claim C7. Under an eject-on-error policy \<open>isInPool\<close> holds of an endpoint exactly when
  its state is \<open>CLOSED\<close> or \<open>HALF_OPEN_READY\<close>. An endpoint that \<open>getNextEndpoint\<close>
  returns was in one of these two states when the call began, never \<open>OPEN\<close> or
  \<open>HALF_OPEN_PENDING\<close>; on return a \<open>HALF_OPEN_READY\<close> endpoint is \<open>HALF_OPEN_PENDING\<close> and
  a \<open>CLOSED\<close> one is still \<open>CLOSED\<close>. An endpoint that is \<open>HALF_OPEN_PENDING\<close> in a state
  the pool has reached stays so through every list of events that reports no outcome
  for it: it is not usable, and \<open>getNextEndpoint\<close> does not return it.
\<close>

theorem eject_usable_selection:
  assumes "p \<noteq> NoPolicy"
  shows
   "(fst (isInPool (pool_of p es k) rt a) \<longleftrightarrow>
       state (heap rt ! a) = Some CLOSED \<or> state (heap rt ! a) = Some HALF_OPEN_READY) \<and>
    (getNextEndpoint (pool_of p es k) rt = (Some a, pm', rt') \<longrightarrow>
       (state (heap rt ! a) = Some CLOSED \<or> state (heap rt ! a) = Some HALF_OPEN_READY) \<and>
       (a < length (heap rt) \<longrightarrow>
          state (heap rt' ! a) =
            (if state (heap rt ! a) = Some HALF_OPEN_READY then Some HALF_OPEN_PENDING
             else Some CLOSED))) \<and>
    (run (new_PoolManager (poolConfig p)) t0 evs = (pm, rt1) \<and> b < length (heap rt1) \<and>
     state (heap rt1 ! b) = Some HALF_OPEN_PENDING \<and> (\<forall>err. Callback b err \<notin> set evs') \<longrightarrow>
       state (heap (snd (foldl step (pm, rt1) evs')) ! b) = Some HALF_OPEN_PENDING \<and>
       \<not> fst (isInPool (fst (foldl step (pm, rt1) evs')) (snd (foldl step (pm, rt1) evs')) b) \<and>
       fst (getNextEndpoint (fst (foldl step (pm, rt1) evs'))
         (snd (foldl step (pm, rt1) evs'))) \<noteq> Some b)"
proof -
  have u: "usable p e \<longleftrightarrow> state e = Some CLOSED \<or> state e = Some HALF_OPEN_READY" for e
    using assms by (cases p) simp_all
  have 1: "fst (isInPool (pool_of p es k) rt a) \<longleftrightarrow>
       state (heap rt ! a) = Some CLOSED \<or> state (heap rt ! a) = Some HALF_OPEN_READY"
    by (simp add: isInPool_policy u)
  have 2: "(state (heap rt ! a) = Some CLOSED \<or> state (heap rt ! a) = Some HALF_OPEN_READY) \<and>
       (a < length (heap rt) \<longrightarrow>
          state (heap rt' ! a) =
            (if state (heap rt ! a) = Some HALF_OPEN_READY then Some HALF_OPEN_PENDING
             else Some CLOSED))"
    if g: "getNextEndpoint (pool_of p es k) rt = (Some a, pm', rt')"
  proof -
    from getNextEndpoint_Some [OF g]
    have ua: "usable p (heap rt ! a)" and rt': "rt' = modify rt a (selected p)" .
    have "selected p e =
        (if state e = Some HALF_OPEN_READY then e\<lparr>state := Some HALF_OPEN_PENDING\<rparr> else e)"
      for e using assms by (cases p) simp_all
    then show ?thesis using ua by (auto simp: rt' u)
  qed
  have 3: "state (heap (snd (foldl step (pm, rt1) evs')) ! b) = Some HALF_OPEN_PENDING \<and>
       \<not> fst (isInPool (fst (foldl step (pm, rt1) evs')) (snd (foldl step (pm, rt1) evs')) b) \<and>
       fst (getNextEndpoint (fst (foldl step (pm, rt1) evs'))
         (snd (foldl step (pm, rt1) evs'))) \<noteq> Some b"
    if r: "run (new_PoolManager (poolConfig p)) t0 evs = (pm, rt1)"
      and b: "b < length (heap rt1)" and s: "state (heap rt1 ! b) = Some HALF_OPEN_PENDING"
      and e: "\<forall>err. Callback b err \<notin> set evs'"
  proof -
    from run_timers_ok [of p t0 evs] r
    obtain es1 k1 where pm: "pm = pool_of p es1 k1" and ok: "timers_ok rt1"
      by auto
    from foldl_step_keeps_pending [OF ok b s e, of p es1 k1]
    obtain es2 k2 rt2 where f: "foldl step (pm, rt1) evs' = (pool_of p es2 k2, rt2)"
      and s2: "state (heap rt2 ! b) = Some HALF_OPEN_PENDING"
      by (auto simp: pm)
    have nu: "\<not> usable p (heap rt2 ! b)" using s2 by (simp add: u)
    have "fst (getNextEndpoint (pool_of p es2 k2) rt2) \<noteq> Some b"
    proof
      assume "fst (getNextEndpoint (pool_of p es2 k2) rt2) = Some b"
      then obtain pm'' rt'' where "getNextEndpoint (pool_of p es2 k2) rt2 = (Some b, pm'', rt'')"
        by (cases "getNextEndpoint (pool_of p es2 k2) rt2") auto
      from getNextEndpoint_Some(1) [OF this] nu show False by simp
    qed
    then show ?thesis using s2 nu by (simp add: f isInPool_policy)
  qed
  show ?thesis using 1 2 3 by blast
qed

lemma example_probe_eval:
  "length (heap (snd (run (new_PoolManager (poolConfig (RollingWindow 10000 2 10000))) 0
      example_probe_events))) = 3"
  "state (heap (snd (run (new_PoolManager (poolConfig (RollingWindow 10000 2 10000))) 0
      example_probe_events)) ! 1) = Some HALF_OPEN_PENDING"
  by (simp_all add: run_def example_probe_events_def example_eval getNextEndpoint_def
      getNextEndpoint_loop.simps ejectIsInPool_def ejectOnEndpointSelected_def)


theorem eject_usable_selection_witness:
  "RollingWindow 10000 2 10000 \<noteq> NoPolicy \<and>
   1 < length (heap (snd (run (new_PoolManager (poolConfig (RollingWindow 10000 2 10000))) 0
      example_probe_events))) \<and>
   state (heap (snd (run (new_PoolManager (poolConfig (RollingWindow 10000 2 10000))) 0
      example_probe_events)) ! 1) = Some HALF_OPEN_PENDING \<and>
   state (heap (snd (foldl step
      (run (new_PoolManager (poolConfig (RollingWindow 10000 2 10000))) 0 example_probe_events)
      [GetNextEndpoint, Elapse 5, GetNextEndpoint])) ! 1) = Some HALF_OPEN_PENDING \<and>
   fst (getNextEndpoint
      (fst (foldl step
        (run (new_PoolManager (poolConfig (RollingWindow 10000 2 10000))) 0
           example_probe_events)
        [GetNextEndpoint, Elapse 5, GetNextEndpoint]))
      (snd (foldl step
        (run (new_PoolManager (poolConfig (RollingWindow 10000 2 10000))) 0
           example_probe_events)
        [GetNextEndpoint, Elapse 5, GetNextEndpoint]))) \<noteq> Some 1"
proof -
  let ?p = "RollingWindow 10000 2 10000"
  let ?R = "run (new_PoolManager (poolConfig ?p)) 0 example_probe_events"
  let ?evs = "[GetNextEndpoint, Elapse 5, GetNextEndpoint]"
  have p: "?p \<noteq> NoPolicy" by simp
  have l: "1 < length (heap (snd ?R))" using example_probe_eval(1) by simp
  have s: "state (heap (snd ?R) ! 1) = Some HALF_OPEN_PENDING" by (rule example_probe_eval(2))
  have e: "\<forall>err. Callback 1 err \<notin> set ?evs" by simp
  have r: "?R = (fst ?R, snd ?R)" by simp
  note t = eject_usable_selection [OF p, where ?t0.0 = 0 and evs = example_probe_events
      and pm = "fst ?R" and ?rt1.0 = "snd ?R" and b = 1 and evs' = ?evs,
      THEN conjunct2, THEN conjunct2, rule_format, OF conjI [OF r conjI [OF l conjI [OF s e]]]]
  note t' = t [unfolded prod.collapse]
  have "state (heap (snd (foldl step ?R ?evs)) ! 1) = Some HALF_OPEN_PENDING"
    by (rule t' [THEN conjunct1])
  moreover
  have "fst (getNextEndpoint (fst (foldl step ?R ?evs)) (snd (foldl step ?R ?evs))) \<noteq> Some 1"
    by (rule t' [THEN conjunct2, THEN conjunct2])
  ultimately show ?thesis using p l s by blast
qed

section \<open>The failure count of the rate policy along a run\<close>

lemma disableEndpoint_fields:
  "buffer (heap (disableEndpoint r rt a) ! a') = buffer (heap rt ! a')"
  "errors (heap (disableEndpoint r rt a) ! a') = errors (heap rt ! a')"
  "callback (heap (disableEndpoint r rt a) ! a') = callback (heap rt ! a')"
proof -
  have "buffer (heap (disableEndpoint r rt a) ! a') = buffer (heap rt ! a') \<and>
    errors (heap (disableEndpoint r rt a) ! a') = errors (heap rt ! a') \<and>
    callback (heap (disableEndpoint r rt a) ! a') = callback (heap rt ! a')"
  proof (cases "a' = a \<and> a < length (heap rt) \<and> state (heap rt ! a) \<noteq> Some OPEN")
    case True
    then show ?thesis by (simp add: disableEndpoint_not_OPEN)
  next
    case False
    then consider "a' \<noteq> a" | "state (heap rt ! a) = Some OPEN" | "\<not> a < length (heap rt)"
      by blast
    then show ?thesis
    proof cases
      case 1
      then show ?thesis by (simp add: disableEndpoint_other)
    next
      case 2
      then show ?thesis by (simp add: disableEndpoint_OPEN)
    next
      case 3
      then have "(heap rt)[a := x] = heap rt" for x
        by (simp add: list_update_beyond)
      then show ?thesis
        by (simp add: disableEndpoint_def Let_def setTimeout_def clearInterval_def
            split: option.splits)
    qed
  qed
  then show "buffer (heap (disableEndpoint r rt a) ! a') = buffer (heap rt ! a')"
    "errors (heap (disableEndpoint r rt a) ! a') = errors (heap rt ! a')"
    "callback (heap (disableEndpoint r rt a) ! a') = callback (heap rt ! a')"
    by simp_all
qed





lemma updateEndpoints_loop_distinct_snd:
  "distinct cs \<Longrightarrow> distinct (snd (updateEndpoints_loop h i es cs))"
proof (induction i arbitrary: es cs)
  case 0
  then show ?case by simp
next
  case (Suc i)
  show ?case
  proof (cases "findWhere h cs (url (h ! (es ! i)))")
    case None
    then show ?thesis using Suc by simp
  next
    case (Some m)
    have "distinct (without cs m)" using Suc.prems by (simp add: without_def)
    then show ?thesis using Suc.IH [of "without cs m" es] by (simp add: Some)
  qed
qed

lemma updateEndpoints_new_objects:
  assumes R: "R = updateEndpoints (pool_of p es k) rt infos" and j: "j < length infos"
  shows "heap (snd R) ! (length (heap rt) + j) = new_Endpoint (infos ! j) \<or>
    heap (snd R) ! (length (heap rt) + j) =
      registered p ((new_Endpoint (infos ! j))\<lparr>callback := True\<rparr>)"
proof -
  let ?n = "length (heap rt)"
  let ?rt1 = "rt\<lparr>heap := heap rt @ map new_Endpoint infos\<rparr>"
  let ?cs = "[?n ..< ?n + length infos]"
  let ?r = "updateEndpoints_loop (heap ?rt1) (length es) es ?cs"
  let ?f = "\<lambda>e. registered p (e\<lparr>callback := True\<rparr>)"
  have sub: "set (snd ?r) \<subseteq> set ?cs"
    using updateEndpoints_loop_subset [of "heap ?rt1" "length es" es ?cs] by simp
  then have lt: "\<forall>c\<in>set (snd ?r). c < length (heap ?rt1)"
    by auto
  have d: "distinct (snd ?r)"
    by (rule updateEndpoints_loop_distinct_snd) simp
  have "fold (\<lambda>endpoint rt. register (pool_of p es k) rt endpoint) (snd ?r) ?rt1 =
      fold (\<lambda>c rt. modify rt c ?f) (snd ?r) ?rt1"
    by (rule fold_register [OF lt])
  then have R': "snd R = fold (\<lambda>c rt. modify rt c ?f) (snd ?r) ?rt1"
    by (simp add: R updateEndpoints_def Let_def)
  have h1: "heap ?rt1 ! (?n + j) = new_Endpoint (infos ! j)"
    using j by (simp add: nth_append)
  show ?thesis
  proof (cases "?n + j \<in> set (snd ?r)")
    case True
    have "heap (snd R) ! (?n + j) = ?f (heap ?rt1 ! (?n + j))"
      unfolding R' using j by (intro fold_modify_at [OF d True]) simp
    then show ?thesis by (simp only: h1) simp
  next
    case False
    have "heap (snd R) ! (?n + j) = heap ?rt1 ! (?n + j)"
      unfolding R' by (rule fold_modify_other [OF False])
    then show ?thesis by (simp only: h1) simp
  qed
qed









lemma timer_fires_fields:
  "buffer (heap (timer_fires rt i) ! a) = buffer (heap rt ! a) \<and>
   errors (heap (timer_fires rt i) ! a) = errors (heap rt ! a) \<and>
   callback (heap (timer_fires rt i) ! a) = callback (heap rt ! a)"
proof (cases "find (\<lambda>t. timer_id t = i) (timers rt)")
  case None
  then show ?thesis by (simp add: timer_fires_def)
next
  case (Some t)
  show ?thesis
  proof (cases "target t = a \<and> a < length (heap rt)")
    case True
    then show ?thesis by (simp add: timer_fires_def Some)
  next
    case False
    then have "((heap rt)[target t := x]) ! a = heap rt ! a" for x
      by (cases "target t = a") (simp_all add: list_update_beyond)
    then show ?thesis by (simp add: timer_fires_def Some)
  qed
qed

lemma selected_fields:
  "buffer (selected p e) = buffer e \<and> errors (selected p e) = errors e \<and>
   callback (selected p e) = callback e"
  by (cases p) simp_all







lemma getStatus_snd: "snd (getStatus (pool_of p es k) rt) = rt"
  by (simp add: getStatus_def getStatus_fold)

lemma step_pool:
  "\<exists>es' k' rt'. step (pool_of p es k, rt) ev = (pool_of p es' k', rt')"
proof (cases ev)
  case (UpdateEndpoints infos)
  obtain es' where "fst (updateEndpoints (pool_of p es k) rt infos) = pool_of p es' k"
    using updateEndpoints_pool by blast
  then have "updateEndpoints (pool_of p es k) rt infos =
      (pool_of p es' k, snd (updateEndpoints (pool_of p es k) rt infos))"
    by (metis prod.collapse)
  then show ?thesis by (auto simp: UpdateEndpoints)
next
  case GetNextEndpoint
  from getNextEndpoint_result [of p es k rt]
  obtain k' x rt' where "getNextEndpoint (pool_of p es k) rt = (x, pool_of p es k', rt')"
    by blast
  then show ?thesis
    by (intro exI [of _ es] exI [of _ k'] exI [of _ rt']) (simp add: GetNextEndpoint)
next
  case GetStatus
  then show ?thesis by auto
next
  case (Callback a err)
  then show ?thesis by (auto split: sum.splits)
next
  case (TimerFires i)
  then show ?thesis by auto
next
  case (Elapse d)
  then show ?thesis by auto
qed





lemma example_failureRate_literal: "round_double (28 / 100) = Finite example_failureRate"
  by (simp add: example_failureRate_def number_eval)






section \<open>The buffers of a run\<close>

lemma write_all_Nil [simp]: "write_all rb [] = rb"
  by (simp add: write_all_def)

lemma rb_size_write_all [simp]: "rb_size (write_all rb vs) = rb_size rb"
proof (induction vs rule: rev_induct)
  case Nil
  then show ?case by simp
next
  case (snoc v vs)
  then show ?case by (simp add: write_all_snoc rb_size_write_rb)
qed

lemma rb_size_new [simp]: "rb_size (new_RingBuffer c) = c"
  by (simp add: new_RingBuffer_def)

lemma buffers_invD:
  assumes "buffers_inv p rt" "a < length (heap rt)" "buffer (heap rt ! a) = Some b"
  shows "\<exists>ws. b = write_all (new_RingBuffer (capacity p)) ws \<and> (capacity p = 0 \<longrightarrow> ws = [])"
  using assms by (simp add: buffers_inv_def)

lemma buffers_inv_frame:
  assumes inv: "buffers_inv p rt"
    and len: "length (heap rt') = length (heap rt)"
    and same: "\<And>a. a < length (heap rt) \<Longrightarrow> buffer (heap rt' ! a) = buffer (heap rt ! a)"
  shows "buffers_inv p rt'"
  unfolding buffers_inv_def
proof (intro allI impI)
  fix a b assume a: "a < length (heap rt')" and b: "buffer (heap rt' ! a) = Some b"
  then have "a < length (heap rt)" "buffer (heap rt ! a) = Some b"
    using len same [of a] by simp_all
  then show "\<exists>ws. b = write_all (new_RingBuffer (capacity p)) ws \<and> (capacity p = 0 \<longrightarrow> ws = [])"
    by (rule buffers_invD [OF inv])
qed

lemma buffer_registered:
  "buffer (registered p e) = buffer e \<or>
   buffer (registered p e) = Some (new_RingBuffer (capacity p))"
  by (cases p) simp_all

lemma updateEndpoints_buffers_inv:
  assumes inv: "buffers_inv p rt"
  shows "buffers_inv p (snd (updateEndpoints (pool_of p es k) rt infos))"
  unfolding buffers_inv_def
proof (intro allI impI)
  let ?R = "updateEndpoints (pool_of p es k) rt infos"
  let ?n = "length (heap rt)"
  note fr = updateEndpoints_frame [OF refl, where p = p and es = es and k = k
      and rt = rt and infos = infos]
  fix a b assume a: "a < length (heap (snd ?R))" and b: "buffer (heap (snd ?R) ! a) = Some b"
  show "\<exists>ws. b = write_all (new_RingBuffer (capacity p)) ws \<and> (capacity p = 0 \<longrightarrow> ws = [])"
  proof (cases "a < ?n")
    case True
    have "heap (snd ?R) ! a = heap rt ! a" using fr(5) True by simp
    then show ?thesis using buffers_invD [OF inv True, of b] b by simp
  next
    case False
    define j where "j = a - ?n"
    have j: "a = ?n + j" "j < length infos"
      using a False fr(4) by (simp_all add: j_def)
    have nb: "buffer (new_Endpoint (infos ! j)) = None"
      "buffer ((new_Endpoint (infos ! j))\<lparr>callback := True\<rparr>) = None"
      by (simp_all add: new_Endpoint_def)
    from updateEndpoints_new_objects [OF refl j(2), of p es k rt]
    have "heap (snd ?R) ! a = new_Endpoint (infos ! j) \<or> heap (snd ?R) ! a =
        registered p ((new_Endpoint (infos ! j))\<lparr>callback := True\<rparr>)"
      by (simp only: j(1))
    then have "b = new_RingBuffer (capacity p)"
      using b nb buffer_registered [of p "(new_Endpoint (infos ! j))\<lparr>callback := True\<rparr>"]
      by auto
    then show ?thesis by (intro exI [of _ "[]"]) simp
  qed
qed

lemma getNextEndpoint_buffers_inv:
  assumes inv: "buffers_inv p rt"
  shows "buffers_inv p (snd (snd (getNextEndpoint (pool_of p es k) rt)))"
proof -
  from getNextEndpoint_result [of p es k rt]
  obtain k' x rt' where g: "getNextEndpoint (pool_of p es k) rt = (x, pool_of p es k', rt')"
    and c: "rt' = rt \<or> (\<exists>b. rt' = modify rt b (selected p))"
    by blast
  have "buffers_inv p rt'"
  proof (rule buffers_inv_frame [OF inv])
    show "length (heap rt') = length (heap rt)" using c by auto
  next
    fix a assume a: "a < length (heap rt)"
    from c show "buffer (heap rt' ! a) = buffer (heap rt ! a)"
    proof
      assume "rt' = rt"
      then show ?thesis by simp
    next
      assume "\<exists>b. rt' = modify rt b (selected p)"
      then obtain b where b: "rt' = modify rt b (selected p)" by blast
      show ?thesis
      proof (cases "b = a")
        case True
        then show ?thesis using a selected_fields [of p "heap rt ! a"] by (simp add: b)
      next
        case False
        then show ?thesis by (simp add: b)
      qed
    qed
  qed
  then show ?thesis by (simp add: g)
qed

lemma returned_buffer:
  assumes r: "onEndpointReturned (poolConfig p) rt a err = Inr rt'"
    and a: "a < length (heap rt)"
  shows "buffer (heap rt' ! a) = buffer (heap rt ! a) \<or>
    (\<exists>b v. buffer (heap rt ! a) = Some b \<and> buffer (heap rt' ! a) = Some (write_rb b v) \<and>
       (rb_size b \<noteq> 0 \<or> (\<exists>fr frw rs. p = Rate fr frw rs)))"
proof (cases p)
  case NoPolicy
  then show ?thesis using r by (simp add: defaultOptions_def)
next
  case (RollingWindow fw mf rs)
  then show ?thesis
    using r a
    by (auto simp: getRollingWindowConfiguration_def rollingOnEndpointReturned_def Let_def
        disableEndpoint_fields split: if_splits option.splits)
next
  case (Rate fr frw rs)
  then show ?thesis
    using r a
    by (auto simp: getRateConfiguration_def rateOnEndpointReturned_def Let_def
        disableEndpoint_fields split: if_splits option.splits)
qed

lemma callback_buffers_inv:
  assumes inv: "buffers_inv p rt"
    and ok: "\<And>fr r. p \<noteq> Rate fr 0 r"
    and a': "a' < length (heap rt)"
    and r: "onEndpointReturned (poolConfig p) rt a' err = Inr rt'"
  shows "buffers_inv p rt'"
  unfolding buffers_inv_def
proof (intro allI impI)
  note o = returned_other [OF r]
  fix a b assume a: "a < length (heap rt')" and b: "buffer (heap rt' ! a) = Some b"
  have al: "a < length (heap rt)" using a o(1) by simp
  show "\<exists>ws. b = write_all (new_RingBuffer (capacity p)) ws \<and> (capacity p = 0 \<longrightarrow> ws = [])"
  proof (cases "a = a'")
    case False
    then have "heap rt' ! a = heap rt ! a" using o(2) by simp
    then show ?thesis using buffers_invD [OF inv al, of b] b by simp
  next
    case True
    from returned_buffer [OF r a']
    consider "buffer (heap rt' ! a') = buffer (heap rt ! a')"
      | b0 v where "buffer (heap rt ! a') = Some b0" "buffer (heap rt' ! a') = Some (write_rb b0 v)"
        "rb_size b0 \<noteq> 0 \<or> (\<exists>fr frw rs. p = Rate fr frw rs)"
      by blast
    then show ?thesis
    proof cases
      case 1
      then show ?thesis using buffers_invD [OF inv al, of b] b True by simp
    next
      case 2
      from buffers_invD [OF inv a' 2(1)]
      obtain ws where ws: "b0 = write_all (new_RingBuffer (capacity p)) ws" by blast
      have sz: "rb_size b0 = capacity p" by (simp add: ws)
      have pos: "capacity p \<noteq> 0"
      proof (cases "rb_size b0 \<noteq> 0")
        case True
        then show ?thesis by (simp add: sz)
      next
        case False
        then obtain fr frw rs where p: "p = Rate fr frw rs" using 2(3) by blast
        then show ?thesis using ok [of fr rs] by (cases frw) auto
      qed
      have "b = write_all (new_RingBuffer (capacity p)) (ws @ [v])"
        using b 2(2) True by (simp add: write_all_snoc ws)
      then show ?thesis using pos by (intro exI [of _ "ws @ [v]"]) simp
    qed
  qed
qed

lemma step_buffers_inv:
  assumes inv: "buffers_inv p rt" and ok: "\<And>fr r. p \<noteq> Rate fr 0 r"
  shows "buffers_inv p (snd (step (pool_of p es k, rt) ev))"
proof (cases ev)
  case (UpdateEndpoints infos)
  then show ?thesis
    using updateEndpoints_buffers_inv [OF inv, of es k infos] by simp
next
  case GetNextEndpoint
  then show ?thesis
    using getNextEndpoint_buffers_inv [OF inv, of es k] by simp
next
  case GetStatus
  then show ?thesis
    using inv getStatus_snd [of p es k rt] by simp
next
  case (Callback a' err)
  show ?thesis
  proof (cases "a' < length (heap rt) \<and> callback (heap rt ! a')")
    case False
    then have "snd (step (pool_of p es k, rt) ev) = rt"
      by (auto simp: Callback)
    then show ?thesis using inv by simp
  next
    case True
    show ?thesis
    proof (cases "onEndpointReturned (poolConfig p) rt a' err")
      case (Inl e)
      then have "snd (step (pool_of p es k, rt) ev) = rt"
        using True by (simp add: Callback)
      then show ?thesis using inv by simp
    next
      case (Inr rt')
      then have "snd (step (pool_of p es k, rt) ev) = rt'"
        using True by (simp add: Callback)
      then show ?thesis
        using callback_buffers_inv [OF inv ok _ Inr] True by simp
    qed
  qed
next
  case (TimerFires i)
  have "buffers_inv p (timer_fires rt i)"
    by (rule buffers_inv_frame [OF inv]) (simp_all add: timer_fires_fields)
  then show ?thesis by (simp add: TimerFires)
next
  case (Elapse d)
  have "buffers_inv p (rt\<lparr>now := now rt + int d\<rparr>)"
    by (rule buffers_inv_frame [OF inv]) simp_all
  then show ?thesis by (simp add: Elapse)
qed

lemma foldl_step_buffers_inv:
  assumes ok: "\<And>fr r. p \<noteq> Rate fr 0 r"
  shows "buffers_inv p rt \<Longrightarrow> buffers_inv p (snd (foldl step (pool_of p es k, rt) evs))"
proof (induction evs arbitrary: es k rt)
  case Nil
  then show ?case by simp
next
  case (Cons ev evs)
  from step_pool [of p es k rt ev]
  obtain es' k' rt' where st: "step (pool_of p es k, rt) ev = (pool_of p es' k', rt')"
    by blast
  have "buffers_inv p rt'"
    using step_buffers_inv [OF Cons.prems ok, of es k ev] by (simp add: st)
  from Cons.IH [OF this, of es' k'] show ?case
    by (simp add: st)
qed

lemma run_buffers_inv:
  assumes ok: "\<And>fr r. p \<noteq> Rate fr 0 r"
  shows "buffers_inv p (snd (run (new_PoolManager (poolConfig p)) t0 evs))"
proof -
  have pm: "new_PoolManager (poolConfig p) = pool_of p [] 0"
    by (simp add: pool_of_def new_PoolManager_def)
  have "buffers_inv p (new_runtime t0)"
    by (simp add: buffers_inv_def new_runtime_def)
  from foldl_step_buffers_inv [OF ok this, of "[]" 0 evs]
  show ?thesis by (simp add: run_def pm)
qed

lemma built_policy:
  assumes "pm = defaultPoolManager \<or> ejectOnErrorPoolManager opts = Inr pm"
  shows "\<exists>p. pm = new_PoolManager (poolConfig p) \<and> (\<forall>fr r. p \<noteq> Rate fr 0 r)"
  using assms
proof
  assume "pm = defaultPoolManager"
  then have "pm = new_PoolManager (poolConfig NoPolicy)"
    by (simp add: defaultPoolManager_def)
  then show ?thesis by (intro exI [of _ NoPolicy]) simp
next
  assume e: "ejectOnErrorPoolManager opts = Inr pm"
  then obtain opt where opt: "opts = Some opt"
    by (cases opts) (simp_all add: ejectOnErrorPoolManager_def)
  show ?thesis
  proof (cases "truthy (failureWindow opt) \<and> truthy (maxFailures opt) \<and>
      truthy (resetTimeout opt)")
    case True
    then have "pm = new_PoolManager (poolConfig (RollingWindow (the (failureWindow opt))
        (the (maxFailures opt)) (the (resetTimeout opt))))"
      using e by (simp add: ejectOnErrorPoolManager_def opt)
    then show ?thesis
      by (intro exI [of _ "RollingWindow (the (failureWindow opt)) (the (maxFailures opt))
          (the (resetTimeout opt))"]) simp
  next
    case False
    then have t: "truthy (failureRateWindow opt)"
      and pm: "pm = new_PoolManager (poolConfig (Rate (the (failureRate opt))
        (the (failureRateWindow opt)) (the (resetTimeout opt))))"
      using e by (auto simp: ejectOnErrorPoolManager_def opt split: if_splits)
    have "the (failureRateWindow opt) \<noteq> 0"
      using t by (auto simp: truthy_def split: option.splits)
    then show ?thesis
      using pm
      by (intro exI [of _ "Rate (the (failureRate opt)) (the (failureRateWindow opt))
          (the (resetTimeout opt))"]) simp
  qed
qed

text \<open>
  Claim C9. A buffer of capacity \<open>c > 0\<close> that has received the writes \<open>vs\<close> since its
  construction has its write pointer at \<open>length vs mod c\<close>; \<open>read()\<close> returns the slot at
  the write pointer, which is the slot the next \<open>write(v)\<close> overwrites; \<open>write(v)\<close> stores
  \<open>v\<close> there and advances the pointer modulo \<open>c\<close>; before each of the first \<open>c\<close> writes
  \<open>read()\<close> returns an empty slot, and from then on it returns the value written \<open>c\<close>
  writes ago, so the values come back in the order written, starting with the first. A
  new buffer of capacity 0 returns no value from \<open>read()\<close>. In every state that a pool
  built by the module reaches, every buffer of an endpoint is a new buffer that has
  received a list of writes, and a buffer of capacity 0 has received none: \<open>read()\<close> on
  it returns no value.
\<close>

theorem RingBuffer_read_write:
  assumes "pm = defaultPoolManager \<or> ejectOnErrorPoolManager opts = Inr pm"
  shows
  "(0 < c \<longrightarrow>
      (let rb = write_all (new_RingBuffer c) vs; k = length vs mod c in
         rb_offset rb = Idx k \<and>
         read rb = rb_buffer rb ! k \<and>
         write_rb rb v =
           rb\<lparr>rb_buffer := (rb_buffer rb)[k := Some v], rb_offset := Idx (Suc k mod c)\<rparr> \<and>
         read rb = (if length vs < c then None else Some (vs ! (length vs - c))))) \<and>
   read (new_RingBuffer 0) = None \<and>
   (a < length (heap (snd (run pm t evs))) \<and>
    buffer (heap (snd (run pm t evs)) ! a) = Some b \<longrightarrow>
      (\<exists>ws. b = write_all (new_RingBuffer (rb_size b)) ws \<and>
         (rb_size b = 0 \<longrightarrow> ws = [] \<and> b = new_RingBuffer 0 \<and> read b = None)))"
proof -
  have zero: "read (new_RingBuffer 0) = None"
    by (simp add: read_def new_RingBuffer_def array_get_def)
  have pos: "rb_offset rb = Idx k \<and> read rb = rb_buffer rb ! k \<and>
      write_rb rb v =
        rb\<lparr>rb_buffer := (rb_buffer rb)[k := Some v], rb_offset := Idx (Suc k mod c)\<rparr> \<and>
      read rb = (if length vs < c then None else Some (vs ! (length vs - c)))"
    if c: "0 < c" and rb: "rb = write_all (new_RingBuffer c) vs" and k: "k = length vs mod c"
    for rb k
  proof -
    have sh: "rb_offset rb = Idx k" "rb_size rb = c" "length (rb_buffer rb) = c"
      using write_all_shape [OF c, of vs] by (simp_all add: rb k)
    have kc: "k < c" using c by (simp add: k)
    have "read rb = rb_buffer rb ! k"
      using sh kc by (simp add: read_def array_get_def)
    moreover have "write_rb rb v =
        rb\<lparr>rb_buffer := (rb_buffer rb)[k := Some v], rb_offset := Idx (Suc k mod c)\<rparr>"
      using sh kc c by (simp add: write_rb_def array_set_def js_mod_def)
    moreover have "read rb = (if length vs < c then None else Some (vs ! (length vs - c)))"
      using read_write_all [OF c, of vs] by (simp add: rb)
    ultimately show ?thesis using sh(1) by blast
  qed
  have run: "\<exists>ws. b = write_all (new_RingBuffer (rb_size b)) ws \<and>
      (rb_size b = 0 \<longrightarrow> ws = [] \<and> b = new_RingBuffer 0 \<and> read b = None)"
    if a: "a < length (heap (snd (run pm t evs)))"
      and b: "buffer (heap (snd (run pm t evs)) ! a) = Some b"
  proof -
    from built_policy [OF assms]
    obtain p where pm: "pm = new_PoolManager (poolConfig p)" and ok: "\<And>fr r. p \<noteq> Rate fr 0 r"
      by blast
    from buffers_invD [OF run_buffers_inv [OF ok, of t evs] a [unfolded pm] b [unfolded pm]]
    obtain ws where ws: "b = write_all (new_RingBuffer (capacity p)) ws"
      and e: "capacity p = 0 \<longrightarrow> ws = []"
      by auto
    have sz: "rb_size b = capacity p" by (simp add: ws)
    have A: "b = write_all (new_RingBuffer (rb_size b)) ws"
      unfolding sz by (rule ws)
    have B: "rb_size b = 0 \<longrightarrow> ws = [] \<and> b = new_RingBuffer 0 \<and> read b = None"
    proof
      assume "rb_size b = 0"
      then have "ws = []" using e by (simp add: sz)
      then have "b = new_RingBuffer 0" using ws \<open>rb_size b = 0\<close> by (simp add: sz)
      then show "ws = [] \<and> b = new_RingBuffer 0 \<and> read b = None"
        using \<open>ws = []\<close> zero by simp
    qed
    show ?thesis by (rule exI [of _ ws], rule conjI [OF A B])
  qed
  have P1: "0 < c \<longrightarrow>
      (let rb = write_all (new_RingBuffer c) vs; k = length vs mod c in
         rb_offset rb = Idx k \<and>
         read rb = rb_buffer rb ! k \<and>
         write_rb rb v =
           rb\<lparr>rb_buffer := (rb_buffer rb)[k := Some v], rb_offset := Idx (Suc k mod c)\<rparr> \<and>
         read rb = (if length vs < c then None else Some (vs ! (length vs - c))))"
    unfolding Let_def using pos by blast
  have P3: "a < length (heap (snd (run pm t evs))) \<and>
      buffer (heap (snd (run pm t evs)) ! a) = Some b \<longrightarrow>
      (\<exists>ws. b = write_all (new_RingBuffer (rb_size b)) ws \<and>
         (rb_size b = 0 \<longrightarrow> ws = [] \<and> b = new_RingBuffer 0 \<and> read b = None))"
  proof
    assume "a < length (heap (snd (run pm t evs))) \<and>
      buffer (heap (snd (run pm t evs)) ! a) = Some b"
    then show "\<exists>ws. b = write_all (new_RingBuffer (rb_size b)) ws \<and>
         (rb_size b = 0 \<longrightarrow> ws = [] \<and> b = new_RingBuffer 0 \<and> read b = None)"
      using run by (elim conjE)
  qed
  show ?thesis by (rule conjI [OF P1 conjI [OF zero P3]])
qed

lemma example_single_eval:
  "ejectOnErrorPoolManager (Some example_single_options) =
     Inr (new_PoolManager (getRollingWindowConfiguration 10000 1 10000))"
  "heap (snd (run (new_PoolManager (getRollingWindowConfiguration 10000 1 10000)) 0
     example_single_events)) =
     [\<lparr>name = ''a'', port = 80, url = ''a:80'', callback = True, state = Some OPEN,
       buffer = Some \<lparr>rb_buffer = [], rb_buffer_NaN = None, rb_offset = Idx 0, rb_size = 0\<rparr>,
       errors = None, reopenTimeout = Some 1\<rparr>]"
  by (simp_all add: ejectOnErrorPoolManager_def example_single_options_def truthy_def
      run_def example_single_events_def example_eval getNextEndpoint_def
      getNextEndpoint_loop.simps ejectIsInPool_def ejectOnEndpointSelected_def)

theorem RingBuffer_read_write_witness:
  "ejectOnErrorPoolManager (Some example_single_options) =
     Inr (new_PoolManager (getRollingWindowConfiguration 10000 1 10000)) \<and>
   (0::nat) < 3 \<and>
   read (write_all (new_RingBuffer 3) [10, 20]) = None \<and>
   read (write_all (new_RingBuffer 3) [10, 20, 30, 40]) = Some 20 \<and>
   rb_offset (write_all (new_RingBuffer 3) [10, 20, 30, 40]) = Idx 1 \<and>
   0 < length (heap (snd (run (new_PoolManager (getRollingWindowConfiguration 10000 1 10000)) 0
     example_single_events))) \<and>
   state (heap (snd (run (new_PoolManager (getRollingWindowConfiguration 10000 1 10000)) 0
     example_single_events)) ! 0) = Some OPEN \<and>
   buffer (heap (snd (run (new_PoolManager (getRollingWindowConfiguration 10000 1 10000)) 0
     example_single_events)) ! 0) = Some (new_RingBuffer 0) \<and>
   read (new_RingBuffer 0) = None"
proof -
  let ?pm = "new_PoolManager (getRollingWindowConfiguration 10000 1 10000)"
  let ?rt = "snd (run ?pm 0 example_single_events)"
  have h: "?pm = defaultPoolManager \<or>
      ejectOnErrorPoolManager (Some example_single_options) = Inr ?pm"
    using example_single_eval(1) by (rule disjI2)
  have c: "(0::nat) < 3" by simp
  have l: "0 < length (heap ?rt)" and s: "state (heap ?rt ! 0) = Some OPEN"
    and b: "buffer (heap ?rt ! 0) = Some (new_RingBuffer 0)"
    unfolding example_single_eval(2) by (simp_all add: new_RingBuffer_def)
  note t1 = RingBuffer_read_write [OF h, of 3 "[10, 20]" 0 0 0 example_single_events
      "new_RingBuffer 0", unfolded Let_def]
  note t2 = RingBuffer_read_write [OF h, of 3 "[10, 20, 30, 40]" 50 0 0 example_single_events
      "new_RingBuffer 0", unfolded Let_def]
  note a1 = t1 [THEN conjunct1, rule_format, OF c]
  note a2 = t2 [THEN conjunct1, rule_format, OF c]
  have "read (write_all (new_RingBuffer 3) [10, 20]) = None"
    using a1 [THEN conjunct2, THEN conjunct2, THEN conjunct2] by simp
  moreover have "read (write_all (new_RingBuffer 3) [10, 20, 30, 40]) = Some 20"
    using a2 [THEN conjunct2, THEN conjunct2, THEN conjunct2] by simp
  moreover have "rb_offset (write_all (new_RingBuffer 3) [10, 20, 30, 40]) = Idx 1"
    using a2 [THEN conjunct1] by simp
  moreover have "read (new_RingBuffer 0) = None"
  proof -
    have z: "rb_size (new_RingBuffer 0) = 0" by simp
    from t1 [THEN conjunct2, THEN conjunct2, rule_format, OF conjI [OF l b]]
    show ?thesis
    proof (elim exE conjE)
      fix ws :: "int list"
      assume "rb_size (new_RingBuffer 0) = 0 \<longrightarrow>
        ws = [] \<and> new_RingBuffer 0 = new_RingBuffer 0 \<and> read (new_RingBuffer 0) = None"
      from this [rule_format, OF z, THEN conjunct2, THEN conjunct2]
      show "read (new_RingBuffer 0) = None" .
    qed
  qed
  ultimately show ?thesis using example_single_eval(1) c l s b by simp
qed

end
